theory Spec2Isabelle
  imports Main "HOL-Library.Sublist"
begin

section \<open>Paths and extension keys\<close>

text \<open>
  A \<open>pathlib.Path\<close> is modelled by the list of its components; \<open>Path(".")\<close>, whose
  \<open>parts\<close> are empty, is the empty list. A file name is a string; the dot is the only
  character the program looks at.
\<close>

type_synonym path = "string list"

text \<open>\<open>str.rfind(c)\<close>: the index of the last occurrence of \<open>c\<close>, or \<open>-1\<close>.\<close>

fun rfind :: "char \<Rightarrow> string \<Rightarrow> int" where
  "rfind c [] = - 1"
| "rfind c (x # xs) =
     (let r = rfind c xs
      in if 0 \<le> r then r + 1 else if x = c then 0 else - 1)"

text \<open>
  \<open>PurePath.suffix\<close> on the final component, as pathlib defines it (CPython up to 3.13):
  \<^verbatim>\<open>i = name.rfind('.'); return name[i:] if 0 < i < len(name) - 1 else ''\<close>.
  A name that starts with its only dot, or ends in a dot, has the empty suffix.
\<close>

definition suffix_of_name :: "string \<Rightarrow> string" where
  "suffix_of_name name =
     (let i = rfind (CHR ''.'') name
      in if 0 < i \<and> i < int (length name) - 1 then drop (nat i) name else [])"

definition path_name :: "path \<Rightarrow> string" where
  "path_name p = (if p = [] then [] else last p)"

definition path_suffix :: "path \<Rightarrow> string" where
  "path_suffix p = suffix_of_name (path_name p)"

definition no_ext :: string where
  "no_ext = ''<no_ext>''"

text \<open>
  \<^verbatim>\<open>ext = path.suffix.lower() or "<no_ext>"\<close>. The library function \<open>str.lower()\<close>,
  with its Unicode case tables, is not part of the program: it is the parameter
  \<open>str_lower\<close> of the key and of everything that computes a key. What the program relies
  on is stated where it is used: the empty string stays empty, and a leading dot stays a
  leading dot.
\<close>

definition ext_key :: "(string \<Rightarrow> string) \<Rightarrow> path \<Rightarrow> string" where
  "ext_key str_lower p =
     (let e = str_lower (path_suffix p) in if e = [] then no_ext else e)"


section \<open>Defaulting dictionaries\<close>

text \<open>
  A Python \<open>dict\<close> keeps its keys in insertion order, so a dictionary is an association
  list with one entry per key. \<open>dd_modify d k f\<close> is the statement \<open>m[k] = f(m[k])\<close> on a
  \<open>defaultdict\<close> whose factory returns \<open>d\<close>: an absent key is first created with the
  default, at the end of the dictionary. \<open>dd_get d m k\<close> is the value that \<open>m[k]\<close>
  reads.
\<close>

fun dd_modify :: "'v \<Rightarrow> 'k \<Rightarrow> ('v \<Rightarrow> 'v) \<Rightarrow> ('k \<times> 'v) list \<Rightarrow> ('k \<times> 'v) list" where
  "dd_modify d k f [] = [(k, f d)]"
| "dd_modify d k f ((k', v) # m) =
     (if k' = k then (k', f v) # m else (k', v) # dd_modify d k f m)"

definition dd_get :: "'v \<Rightarrow> ('k \<times> 'v) list \<Rightarrow> 'k \<Rightarrow> 'v" where
  "dd_get d m k = (case map_of m k of None \<Rightarrow> d | Some v \<Rightarrow> v)"


section \<open>The scan\<close>

datatype os_error = FileNotFoundError | PermissionError | OtherOSError

datatype error = OSError os_error | ValueError

text \<open>
  The file system as the program sees it: what \<open>os.walk(root)\<close> yields (triples of
  \<open>dirpath\<close>, \<open>dirnames\<close>, \<open>filenames\<close>), what \<open>path.stat().st_size\<close> returns or
  raises, and what reading a file's bytes returns or raises.
\<close>

record filesystem =
  os_walk :: "path \<Rightarrow> (path \<times> string list \<times> string list) list"
  stat_size :: "path \<Rightarrow> os_error + nat"
  read_bytes :: "path \<Rightarrow> os_error + string"

text \<open>The entry \<open>{"count": 0, "size": 0}\<close>; the field \<open>size_b\<close> is the key \<open>"size"\<close>.\<close>

record stats =
  count :: nat
  size_b :: nat

text \<open>The entry \<open>{"count": 0, "size": 0, "ext": defaultdict(...)}\<close> of a directory.\<close>

record dir_entry = stats +
  ext :: "(string \<times> stats) list"

definition new_stats :: stats where
  "new_stats = \<lparr>count = 0, size_b = 0\<rparr>"

definition new_dir_entry :: dir_entry where
  "new_dir_entry = \<lparr>count = 0, size_b = 0, ext = []\<rparr>"

record scan_result =
  all_files :: "(path \<times> nat) list"
  ext_stats :: "(string \<times> stats) list"
  size_index :: "(nat \<times> path list) list"
  dir_stats :: "(path \<times> dir_entry) list"
  total_files :: nat
  total_size :: nat

definition empty_scan :: scan_result where
  "empty_scan = \<lparr>all_files = [], ext_stats = [], size_index = [], dir_stats = [],
                  total_files = 0, total_size = 0\<rparr>"

text \<open>\<open>p.relative_to(other)\<close> raises \<open>ValueError\<close> unless \<open>other\<close> is a prefix of \<open>p\<close>.\<close>

definition relative_to :: "path \<Rightarrow> path \<Rightarrow> error + path" where
  "relative_to p other =
     (if prefix other p then Inr (drop (length other) p) else Inl ValueError)"

text \<open>
  \<open>p.parents\<close> of a relative path: entry \<open>idx\<close> is \<open>parts[:-idx - 1]\<close>, for
  \<open>idx\<close> below the number of parts; the last one is \<open>Path(".")\<close>.
\<close>

definition parents :: "path \<Rightarrow> path list" where
  "parents p = map (\<lambda>idx. take (length p - idx - 1) p) [0..<length p]"

text \<open>Lines 81 to 85: the directory of the file and all its ancestors, the root included.\<close>

definition ancestors_of :: "path \<Rightarrow> path list" where
  "ancestors_of rel_dir = (if rel_dir = [] then [[]] else rel_dir # parents rel_dir)"

text \<open>Lines 65 to 75: the totals, the file list, the global extension stats, the size index.\<close>

definition record_file ::
  "(string \<Rightarrow> string) \<Rightarrow> path \<Rightarrow> nat \<Rightarrow> scan_result \<Rightarrow> scan_result" where
  "record_file str_lower p sz st =
     (let st1 = st\<lparr>total_files := total_files st + 1\<rparr>;
          st2 = st1\<lparr>total_size := total_size st1 + sz\<rparr>;
          st3 = st2\<lparr>all_files := all_files st2 @ [(p, sz)]\<rparr>;
          e = ext_key str_lower p;
          st4 = st3\<lparr>ext_stats :=
                  dd_modify new_stats e (\<lambda>x. x\<lparr>count := count x + 1\<rparr>) (ext_stats st3)\<rparr>;
          st5 = st4\<lparr>ext_stats :=
                  dd_modify new_stats e (\<lambda>x. x\<lparr>size_b := size_b x + sz\<rparr>) (ext_stats st4)\<rparr>
      in st5\<lparr>size_index := dd_modify [] sz (\<lambda>paths. paths @ [p]) (size_index st5)\<rparr>)"

text \<open>Lines 88 to 91: the four updates of one ancestor's entry.\<close>

definition bump_dir ::
  "string \<Rightarrow> nat \<Rightarrow> path \<Rightarrow> (path \<times> dir_entry) list \<Rightarrow> (path \<times> dir_entry) list" where
  "bump_dir e sz anc ds =
     (let ds1 = dd_modify new_dir_entry anc (\<lambda>x. x\<lparr>count := count x + 1\<rparr>) ds;
          ds2 = dd_modify new_dir_entry anc (\<lambda>x. x\<lparr>size_b := size_b x + sz\<rparr>) ds1;
          ds3 = dd_modify new_dir_entry anc
                  (\<lambda>x. x\<lparr>ext := dd_modify new_stats e (\<lambda>y. y\<lparr>count := count y + 1\<rparr>) (ext x)\<rparr>)
                  ds2
      in dd_modify new_dir_entry anc
           (\<lambda>x. x\<lparr>ext := dd_modify new_stats e (\<lambda>y. y\<lparr>size_b := size_b y + sz\<rparr>) (ext x)\<rparr>)
           ds3)"

text \<open>Line 87: \<open>for anc in ancestors\<close>.\<close>

fun rollup ::
  "string \<Rightarrow> nat \<Rightarrow> path list \<Rightarrow> (path \<times> dir_entry) list \<Rightarrow> (path \<times> dir_entry) list" where
  "rollup e sz [] ds = ds"
| "rollup e sz (anc # ancs) ds = rollup e sz ancs (bump_dir e sz anc ds)"

definition record_dirs ::
  "(string \<Rightarrow> string) \<Rightarrow> path \<Rightarrow> path \<Rightarrow> nat \<Rightarrow> scan_result \<Rightarrow> scan_result" where
  "record_dirs str_lower rel_dir p sz st =
     st\<lparr>dir_stats :=
          rollup (ext_key str_lower p) sz (ancestors_of rel_dir) (dir_stats st)\<rparr>"

text \<open>
  Line 57: \<open>for name in filenames\<close>. A \<open>stat\<close> that raises \<open>FileNotFoundError\<close> or
  \<open>PermissionError\<close> skips the file; any other exception leaves the function.
\<close>

fun scan_names ::
  "(string \<Rightarrow> string) \<Rightarrow> filesystem \<Rightarrow> path \<Rightarrow> path \<Rightarrow> string list \<Rightarrow> scan_result
     \<Rightarrow> error + scan_result" where
  "scan_names str_lower fs root dirpath [] st = Inr st"
| "scan_names str_lower fs root dirpath (name # names) st =
     (let p = dirpath @ [name]
      in case stat_size fs p of
           Inl FileNotFoundError \<Rightarrow> scan_names str_lower fs root dirpath names st
         | Inl PermissionError \<Rightarrow> scan_names str_lower fs root dirpath names st
         | Inl OtherOSError \<Rightarrow> Inl (OSError OtherOSError)
         | Inr sz \<Rightarrow>
             (let st1 = record_file str_lower p sz st
              in case relative_to dirpath root of
                   Inl err \<Rightarrow> Inl err
                 | Inr rel_dir \<Rightarrow>
                     scan_names str_lower fs root dirpath names
                       (record_dirs str_lower rel_dir p sz st1)))"

text \<open>Line 55: \<open>for dirpath, _, filenames in os.walk(root)\<close>.\<close>

fun scan_walk ::
  "(string \<Rightarrow> string) \<Rightarrow> filesystem \<Rightarrow> path
     \<Rightarrow> (path \<times> string list \<times> string list) list \<Rightarrow> scan_result
     \<Rightarrow> error + scan_result" where
  "scan_walk str_lower fs root [] st = Inr st"
| "scan_walk str_lower fs root ((dirpath, dirnames, filenames) # rest) st =
     (case scan_names str_lower fs root dirpath filenames st of
        Inl err \<Rightarrow> Inl err
      | Inr st' \<Rightarrow> scan_walk str_lower fs root rest st')"

definition scan_directory ::
  "(string \<Rightarrow> string) \<Rightarrow> filesystem \<Rightarrow> path \<Rightarrow> error + scan_result" where
  "scan_directory str_lower fs root =
     scan_walk str_lower fs root (os_walk fs root) empty_scan"


section \<open>Duplicate detection\<close>

text \<open>
  The digest is a parameter: a start value, the absorption of one chunk and the final
  hexadecimal string, as \<open>hashlib.md5()\<close>, \<open>update\<close> and \<open>hexdigest\<close> provide them.
\<close>

record 'h digest_alg =
  md5_new :: 'h
  md5_update :: "'h \<Rightarrow> string \<Rightarrow> 'h"
  md5_hexdigest :: "'h \<Rightarrow> string"

text \<open>Lines 22 and 23: \<open>while chunk := f.read(chunk_size): h.update(chunk)\<close>.\<close>

function read_loop :: "'h digest_alg \<Rightarrow> nat \<Rightarrow> string \<Rightarrow> 'h \<Rightarrow> 'h" where
  "read_loop alg chunk_size content h =
     (if take chunk_size content = [] then h
      else read_loop alg chunk_size (drop chunk_size content)
             (md5_update alg h (take chunk_size content)))"
  by pat_completeness auto
termination
  by (relation "measure (\<lambda>(alg, chunk_size, content, h). length content)") auto

declare read_loop.simps [simp del]

definition hash_file_chunked ::
  "'h digest_alg \<Rightarrow> filesystem \<Rightarrow> path \<Rightarrow> nat \<Rightarrow> os_error + string" where
  "hash_file_chunked alg fs p chunk_size =
     (case read_bytes fs p of
        Inl err \<Rightarrow> Inl err
      | Inr content \<Rightarrow> Inr (md5_hexdigest alg (read_loop alg chunk_size content (md5_new alg))))"

definition hash_file :: "'h digest_alg \<Rightarrow> filesystem \<Rightarrow> path \<Rightarrow> os_error + string" where
  "hash_file alg fs p = hash_file_chunked alg fs p (1024 * 1024)"

text \<open>Line 114: the buckets with more than one path, in the order of the index.\<close>

definition candidates :: "(nat \<times> path list) list \<Rightarrow> (nat \<times> path list) list" where
  "candidates si = filter (\<lambda>(sz, paths). length paths > 1) si"

text \<open>
  Lines 120 to 125, for one bucket. The second component is a log of the paths handed to
  the hasher; it is not part of the program's state and only records the calls.
\<close>

fun hash_paths ::
  "(path \<Rightarrow> os_error + string) \<Rightarrow> path list \<Rightarrow> (string \<times> path list) list \<times> path list
     \<Rightarrow> (string \<times> path list) list \<times> path list" where
  "hash_paths hasher [] (hash_buckets, hashed) = (hash_buckets, hashed)"
| "hash_paths hasher (p # ps) (hash_buckets, hashed) =
     (case hasher p of
        Inl err \<Rightarrow> hash_paths hasher ps (hash_buckets, hashed @ [p])
      | Inr file_hash \<Rightarrow>
          hash_paths hasher ps
            (dd_modify [] file_hash (\<lambda>l. l @ [p]) hash_buckets, hashed @ [p]))"

text \<open>Lines 128 to 130: the hash buckets with more than one path.\<close>

definition keep_groups :: "(string \<times> path list) list \<Rightarrow> path list list" where
  "keep_groups hash_buckets =
     map snd (filter (\<lambda>(hash_value, dup_paths). length dup_paths > 1) hash_buckets)"

text \<open>Line 118: \<open>for size, paths in candidates.items()\<close>.\<close>

fun resolve ::
  "(path \<Rightarrow> os_error + string) \<Rightarrow> (nat \<times> path list) list \<Rightarrow> path list list \<times> path list
     \<Rightarrow> path list list \<times> path list" where
  "resolve hasher [] (duplicates, hashed) = (duplicates, hashed)"
| "resolve hasher ((sz, paths) # rest) (duplicates, hashed) =
     (let r = hash_paths hasher paths ([], hashed)
      in resolve hasher rest (duplicates @ keep_groups (fst r), snd r))"

definition find_duplicate_candidates_logged ::
  "(path \<Rightarrow> os_error + string) \<Rightarrow> (nat \<times> path list) list \<Rightarrow> path list list \<times> path list" where
  "find_duplicate_candidates_logged hasher si = resolve hasher (candidates si) ([], [])"

definition find_duplicate_candidates ::
  "(path \<Rightarrow> os_error + string) \<Rightarrow> (nat \<times> path list) list \<Rightarrow> path list list" where
  "find_duplicate_candidates hasher si = fst (find_duplicate_candidates_logged hasher si)"

definition hashed_paths ::
  "(path \<Rightarrow> os_error + string) \<Rightarrow> (nat \<times> path list) list \<Rightarrow> path list" where
  "hashed_paths hasher si = snd (find_duplicate_candidates_logged hasher si)"


text \<open>
  The hash buckets that \<open>hash_paths\<close> builds, without the log, and the groups that one
  bucket of the size index gives.
\<close>

fun bucket_paths ::
  "(path \<Rightarrow> os_error + string) \<Rightarrow> path list \<Rightarrow> (string \<times> path list) list
     \<Rightarrow> (string \<times> path list) list" where
  "bucket_paths hasher [] hb = hb"
| "bucket_paths hasher (p # ps) hb =
     (case hasher p of
        Inl err \<Rightarrow> bucket_paths hasher ps hb
      | Inr file_hash \<Rightarrow> bucket_paths hasher ps (dd_modify [] file_hash (\<lambda>l. l @ [p]) hb))"

definition groups_of :: "(path \<Rightarrow> os_error + string) \<Rightarrow> path list \<Rightarrow> path list list" where
  "groups_of hasher paths = keep_groups (bucket_paths hasher paths [])"

text \<open>The index without one path.\<close>

definition without :: "path \<Rightarrow> (nat \<times> path list) list \<Rightarrow> (nat \<times> path list) list" where
  "without p si = map (\<lambda>(sz, paths). (sz, removeAll p paths)) si"


section \<open>The files a scan finds\<close>

text \<open>
  The files of the walk whose size \<open>stat\<close> returns, in the order of the walk, each with
  its directory relative to the root, its path and its size.
\<close>

definition found_in :: "filesystem \<Rightarrow> path \<Rightarrow> path \<Rightarrow> string list \<Rightarrow> (path \<times> path \<times> nat) list" where
  "found_in fs root dirpath filenames =
     concat (map (\<lambda>name. case stat_size fs (dirpath @ [name]) of
                           Inl err \<Rightarrow> []
                         | Inr sz \<Rightarrow> [(drop (length root) dirpath, dirpath @ [name], sz)])
                 filenames)"

definition found ::
  "filesystem \<Rightarrow> path \<Rightarrow> (path \<times> string list \<times> string list) list \<Rightarrow> (path \<times> path \<times> nat) list" where
  "found fs root w =
     concat (map (\<lambda>(dirpath, dirnames, filenames). found_in fs root dirpath filenames) w)"

definition record_found ::
  "(string \<Rightarrow> string) \<Rightarrow> scan_result \<Rightarrow> path \<times> path \<times> nat \<Rightarrow> scan_result" where
  "record_found str_lower st f =
     (case f of (rel_dir, p, sz) \<Rightarrow>
        record_dirs str_lower rel_dir p sz (record_file str_lower p sz st))"

text \<open>The files under a directory, and those of them with a given extension key.\<close>

definition under :: "path \<Rightarrow> (path \<times> path \<times> nat) list \<Rightarrow> (path \<times> path \<times> nat) list" where
  "under d fl = filter (\<lambda>(rel_dir, p, sz). prefix d rel_dir) fl"

definition with_ext ::
  "(string \<Rightarrow> string) \<Rightarrow> string \<Rightarrow> (path \<times> path \<times> nat) list
     \<Rightarrow> (path \<times> path \<times> nat) list" where
  "with_ext str_lower e fl = filter (\<lambda>(rel_dir, p, sz). ext_key str_lower p = e) fl"

definition sizes :: "(path \<times> path \<times> nat) list \<Rightarrow> nat" where
  "sizes fl = sum_list (map (\<lambda>(rel_dir, p, sz). sz) fl)"


text \<open>The combined effect of the updates of one entry, for one file of size \<open>sz\<close>.\<close>

definition bump_stats :: "nat \<Rightarrow> stats \<Rightarrow> stats" where
  "bump_stats sz x = x\<lparr>count := count x + 1, size_b := size_b x + sz\<rparr>"

definition bump_entry :: "string \<Rightarrow> nat \<Rightarrow> dir_entry \<Rightarrow> dir_entry" where
  "bump_entry e sz x =
     x\<lparr>count := count x + 1, size_b := size_b x + sz,
       ext := dd_modify new_stats e (bump_stats sz) (ext x)\<rparr>"

text \<open>A directory entry whose per-extension counts and sizes add up to its own.\<close>

definition balanced :: "dir_entry \<Rightarrow> bool" where
  "balanced x \<longleftrightarrow>
     sum_list (map (\<lambda>(e, y). count y) (ext x)) = count x
   \<and> sum_list (map (\<lambda>(e, y). size_b y) (ext x)) = size_b x
   \<and> distinct (map fst (ext x))"

section \<open>Example inputs\<close>

text \<open>
  The lowercasing of the examples: on a string of ASCII characters \<open>str.lower()\<close> maps
  the letters \<open>A\<close> to \<open>Z\<close> to \<open>a\<close> to \<open>z\<close> and leaves every other character.
  The examples use ASCII names only.
\<close>

definition ascii_lower_char :: "char \<Rightarrow> char" where
  "ascii_lower_char c =
     (if 65 \<le> (of_char c :: nat) \<and> (of_char c :: nat) \<le> 90
      then char_of ((of_char c :: nat) + 32) else c)"

definition ascii_lower :: "string \<Rightarrow> string" where
  "ascii_lower s = map ascii_lower_char s"

text \<open>
  A hasher and a size index for the examples: three readable files of 200 bytes, two of
  them with one digest, one file that cannot be read, and one file alone in its bucket.
\<close>

definition ex_hasher :: "path \<Rightarrow> os_error + string" where
  "ex_hasher p =
     (if p = [''r'', ''a''] \<or> p = [''r'', ''b''] then Inr ''d1''
      else if p = [''r'', ''c''] then Inr ''d2''
      else Inl FileNotFoundError)"

definition ex_index :: "(nat \<times> path list) list" where
  "ex_index = [(200, [[''r'', ''a''], [''r'', ''b''], [''r'', ''c''], [''r'', ''gone'']]),
               (7, [[''r'', ''solo'']])]"

text \<open>
  A toy digest that returns the content itself, and a small tree: \<open>a.txt\<close>, \<open>README\<close>
  and an entry that has vanished in the root, \<open>b.txt\<close> and \<open>c.TXT\<close> in \<open>sub\<close>.
\<close>

definition ex_alg :: "string digest_alg" where
  "ex_alg = \<lparr>md5_new = [], md5_update = (\<lambda>h chunk. h @ chunk), md5_hexdigest = (\<lambda>h. h)\<rparr>"

definition ex_fs :: filesystem where
  "ex_fs =
     \<lparr>os_walk = (\<lambda>root. [(root, [''sub''], [''a.txt'', ''gone'', ''README'']),
                         (root @ [''sub''], [], [''b.txt'', ''c.TXT''])]),
      stat_size = (\<lambda>p. if p = [''r'', ''a.txt''] then Inr 3
                        else if p = [''r'', ''README''] then Inr 5
                        else if p = [''r'', ''sub'', ''b.txt''] then Inr 3
                        else if p = [''r'', ''sub'', ''c.TXT''] then Inr 3
                        else Inl FileNotFoundError),
      read_bytes = (\<lambda>p. if p = [''r'', ''a.txt''] then Inr ''abc''
                         else if p = [''r'', ''README''] then Inr ''hello''
                         else if p = [''r'', ''sub'', ''b.txt''] then Inr ''abc''
                         else if p = [''r'', ''sub'', ''c.TXT''] then Inr ''xyz''
                         else Inl FileNotFoundError)\<rparr>"

definition ex_fs2 :: filesystem where
  "ex_fs2 = ex_fs\<lparr>read_bytes :=
     (\<lambda>p. if p = [''r'', ''other''] then Inr ''zzz'' else read_bytes ex_fs p)\<rparr>"

definition ex_scan_index :: "(nat \<times> path list) list" where
  "ex_scan_index = [(3, [[''r'', ''a.txt''], [''r'', ''sub'', ''b.txt''], [''r'', ''sub'', ''c.TXT'']]),
                    (5, [[''r'', ''README'']])]"

text \<open>What the scan of the small tree returns.\<close>

definition ex_scan :: scan_result where
  "ex_scan =
     \<lparr>all_files = [([''r'', ''a.txt''], 3), ([''r'', ''README''], 5),
                   ([''r'', ''sub'', ''b.txt''], 3), ([''r'', ''sub'', ''c.TXT''], 3)],
      ext_stats = [(''.txt'', \<lparr>count = 3, size_b = 9\<rparr>), (''<no_ext>'', \<lparr>count = 1, size_b = 5\<rparr>)],
      size_index = [(3, [[''r'', ''a.txt''], [''r'', ''sub'', ''b.txt''], [''r'', ''sub'', ''c.TXT'']]),
                    (5, [[''r'', ''README'']])],
      dir_stats = [([], \<lparr>count = 4, size_b = 14,
                         ext = [(''.txt'', \<lparr>count = 3, size_b = 9\<rparr>),
                                (''<no_ext>'', \<lparr>count = 1, size_b = 5\<rparr>)]\<rparr>),
                   ([''sub''], \<lparr>count = 2, size_b = 6,
                                 ext = [(''.txt'', \<lparr>count = 2, size_b = 6\<rparr>)]\<rparr>)],
      total_files = 4, total_size = 14\<rparr>"

text \<open>An empty tree, and the small tree without its vanished entry.\<close>

definition ex_empty_fs :: filesystem where
  "ex_empty_fs =
     \<lparr>os_walk = (\<lambda>root. [(root, [], [])]),
      stat_size = (\<lambda>p. Inl FileNotFoundError),
      read_bytes = (\<lambda>p. Inl FileNotFoundError)\<rparr>"


section \<open>Properties of extension keys\<close>

lemma rfind_ge: "- 1 \<le> rfind c xs"
  by (induction xs) (auto simp: Let_def)

lemma rfind_lt: "rfind c xs < int (length xs)"
  by (induction xs) (auto simp: Let_def)









section \<open>Properties of defaulting dictionaries and of the resolver\<close>

lemma dd_get_modify:
  "dd_get d (dd_modify d k f m) k' = (if k' = k then f (dd_get d m k) else dd_get d m k')"
  by (induction m) (auto simp: dd_get_def)

lemma dd_modify_keys:
  "map fst (dd_modify d k f m) = (if k \<in> fst ` set m then map fst m else map fst m @ [k])"
  by (induction m) (auto simp: image_iff split: if_splits)

lemma dd_modify_distinct:
  "distinct (map fst m) \<Longrightarrow> distinct (map fst (dd_modify d k f m))"
  by (simp add: dd_modify_keys)

lemma dd_modify_twice:
  "dd_modify d k g (dd_modify d k f m) = dd_modify d k (\<lambda>x. g (f x)) m"
  by (induction m) auto

lemma dd_get_member:
  "distinct (map fst m) \<Longrightarrow> (k, v) \<in> set m \<Longrightarrow> dd_get d m k = v"
  by (simp add: dd_get_def)

lemma dd_get_absent:
  "k \<notin> fst ` set m \<Longrightarrow> dd_get d m k = d"
  by (auto simp: dd_get_def map_of_eq_None_iff [symmetric] split: option.splits)

lemma dd_modify_key_set:
  "fst ` set (dd_modify d k f m) = insert k (fst ` set m)"
  by (induction d k f m rule: dd_modify.induct) (simp_all add: insert_commute)

lemma dd_append_Union:
  "(\<Union>a\<in>set (dd_modify [] k (\<lambda>l. l @ [x]) m). set (snd a))
     = insert x (\<Union>a\<in>set m. set (snd a))"
proof (induction m)
  case Nil
  then show ?case by simp
next
  case (Cons a m)
  obtain k' v where a: "a = (k', v)" by (cases a)
  show ?case
  proof (cases "k' = k")
    case True
    then show ?thesis by (simp add: a)
  next
    case False
    then show ?thesis by (simp add: a Cons.IH)
  qed
qed

lemma dd_append_set:
  "set (concat (map snd (dd_modify [] k (\<lambda>l. l @ [x]) m)))
     = insert x (set (concat (map snd m)))"
  using dd_append_Union [of k x m] by simp

lemma dd_append_distinct:
  "distinct (concat (map snd (dd_modify [] k (\<lambda>l. l @ [x]) m)))
     \<longleftrightarrow> distinct (concat (map snd m)) \<and> x \<notin> set (concat (map snd m))"
proof (induction m)
  case Nil
  then show ?case by simp
next
  case (Cons a m)
  obtain k' v where a: "a = (k', v)" by (cases a)
  show ?case
  proof (cases "k' = k")
    case True
    then show ?thesis using a by auto
  next
    case False
    then show ?thesis using a Cons.IH dd_append_Union [of k x m] by auto
  qed
qed

lemma hash_paths_eq:
  "hash_paths h ps (hb, tr) = (bucket_paths h ps hb, tr @ ps)"
  by (induction ps arbitrary: hb tr) (auto split: sum.splits)

lemma resolve_eq:
  "resolve h bs (dups, tr)
     = (dups @ concat (map (\<lambda>(sz, paths). groups_of h paths) bs), tr @ concat (map snd bs))"
  by (induction bs arbitrary: dups tr) (auto simp: hash_paths_eq groups_of_def Let_def)

lemma bucket_paths_get:
  "dd_get [] (bucket_paths h ps hb) d = dd_get [] hb d @ filter (\<lambda>p. h p = Inr d) ps"
  by (induction ps arbitrary: hb) (auto simp: dd_get_modify split: sum.splits)

lemma bucket_paths_distinct_keys:
  "distinct (map fst hb) \<Longrightarrow> distinct (map fst (bucket_paths h ps hb))"
  by (induction ps arbitrary: hb) (auto simp: dd_modify_distinct split: sum.splits)

lemma bucket_paths_keys:
  "fst ` set (bucket_paths h ps hb) = fst ` set hb \<union> {d. \<exists>p\<in>set ps. h p = Inr d}"
proof (induction ps arbitrary: hb)
  case Nil
  then show ?case by simp
next
  case (Cons p ps)
  show ?case
    by (cases "h p") (auto simp: Cons.IH dd_modify_key_set)
qed

lemma bucket_paths_entry:
  assumes "(d, g) \<in> set (bucket_paths h ps [])"
  shows "g = filter (\<lambda>p. h p = Inr d) ps"
proof -
  have "distinct (map fst (bucket_paths h ps []))"
    by (rule bucket_paths_distinct_keys) simp
  from dd_get_member [OF this assms, of "[]"]
  have "dd_get [] [] d @ filter (\<lambda>p. h p = Inr d) ps = g"
    by (simp only: bucket_paths_get)
  then show ?thesis by (simp add: dd_get_def)
qed

lemma groups_of_iff:
  "g \<in> set (groups_of h ps) \<longleftrightarrow>
     (\<exists>d. g = filter (\<lambda>p. h p = Inr d) ps \<and> 1 < length g)"
proof
  assume "g \<in> set (groups_of h ps)"
  then obtain d where m: "(d, g) \<in> set (bucket_paths h ps [])" and l: "1 < length g"
    by (auto simp: groups_of_def keep_groups_def)
  from bucket_paths_entry [OF m] l show "\<exists>d. g = filter (\<lambda>p. h p = Inr d) ps \<and> 1 < length g"
    by blast
next
  assume "\<exists>d. g = filter (\<lambda>p. h p = Inr d) ps \<and> 1 < length g"
  then obtain d where g: "g = filter (\<lambda>p. h p = Inr d) ps" and l: "1 < length g" by blast
  from l have "g \<noteq> []" by auto
  with g obtain p where "p \<in> set ps" "h p = Inr d"
    by (metis (mono_tags, lifting) filter_False)
  then have "d \<in> fst ` set (bucket_paths h ps [])"
    by (auto simp: bucket_paths_keys)
  then obtain g' where m: "(d, g') \<in> set (bucket_paths h ps [])" by auto
  from bucket_paths_entry [OF m] g have "g' = g" by simp
  with m l show "g \<in> set (groups_of h ps)"
    by (force simp: groups_of_def keep_groups_def)
qed

lemma two_members_length:
  "p \<in> set g \<Longrightarrow> q \<in> set g \<Longrightarrow> p \<noteq> q \<Longrightarrow> 1 < length g"
  by (cases g rule: remdups_adj.cases) auto

lemma find_duplicate_candidates_eq:
  "find_duplicate_candidates h si
     = concat (map (\<lambda>(sz, paths). groups_of h paths) (candidates si))"
  by (simp add: find_duplicate_candidates_def find_duplicate_candidates_logged_def resolve_eq)

lemma hashed_paths_eq:
  "hashed_paths h si = concat (map snd (candidates si))"
  by (simp add: hashed_paths_def find_duplicate_candidates_logged_def resolve_eq)

lemma groups_of_short:
  assumes "length ps \<le> 1"
  shows "groups_of h ps = []"
proof (rule ccontr)
  assume "groups_of h ps \<noteq> []"
  then obtain g where "g \<in> set (groups_of h ps)" by (cases "groups_of h ps") auto
  then obtain d where g: "g = filter (\<lambda>p. h p = Inr d) ps" and l: "1 < length g"
    by (auto simp: groups_of_iff)
  have "length g \<le> length ps" unfolding g by (rule length_filter_le)
  with l assms show False by simp
qed

lemma find_duplicate_candidates_all:
  "find_duplicate_candidates h si = concat (map (\<lambda>(sz, paths). groups_of h paths) si)"
  unfolding find_duplicate_candidates_eq candidates_def
  by (induction si) (auto simp: groups_of_short)

lemma in_find_duplicate_candidates:
  "g \<in> set (find_duplicate_candidates h si)
     \<longleftrightarrow> (\<exists>(sz, paths)\<in>set si. g \<in> set (groups_of h paths))"
  by (auto simp: find_duplicate_candidates_all)

lemma groups_of_subset:
  "g \<in> set (groups_of h ps) \<Longrightarrow> set g \<subseteq> set ps"
  by (auto simp: groups_of_iff)

lemma groups_of_digest:
  "g \<in> set (groups_of h ps) \<Longrightarrow> \<exists>d. \<forall>p\<in>set g. h p = Inr d"
  by (auto simp: groups_of_iff)

lemma groups_of_length:
  "g \<in> set (groups_of h ps) \<Longrightarrow> 2 \<le> length g"
  by (auto simp: groups_of_iff)

lemma bucket_paths_subset:
  "set (concat (map snd (bucket_paths h ps hb))) \<subseteq> set (concat (map snd hb)) \<union> set ps"
proof (induction ps arbitrary: hb)
  case Nil
  then show ?case by simp
next
  case (Cons p ps)
  show ?case
  proof (cases "h p")
    case (Inl e)
    with Cons.IH [of hb] show ?thesis by auto
  next
    case (Inr d)
    with Cons.IH [of "dd_modify [] d (\<lambda>l. l @ [p]) hb"] show ?thesis
      by (auto simp only: bucket_paths.simps sum.case dd_append_set set_simps)
  qed
qed

lemma bucket_paths_distinct:
  "distinct ps \<Longrightarrow> distinct (concat (map snd hb))
     \<Longrightarrow> set ps \<inter> set (concat (map snd hb)) = {}
     \<Longrightarrow> distinct (concat (map snd (bucket_paths h ps hb)))"
proof (induction ps arbitrary: hb)
  case Nil
  then show ?case by simp
next
  case (Cons p ps)
  show ?case
  proof (cases "h p")
    case (Inl e)
    with Cons.IH [of hb] Cons.prems show ?thesis by auto
  next
    case (Inr d)
    let ?hb = "dd_modify [] d (\<lambda>l. l @ [p]) hb"
    from Cons.prems have "distinct (concat (map snd ?hb))"
      by (simp only: dd_append_distinct) auto
    moreover from Cons.prems have "set ps \<inter> set (concat (map snd ?hb)) = {}"
      by (simp only: dd_append_set) auto
    moreover from Cons.prems have "distinct ps" by simp
    ultimately have "distinct (concat (map snd (bucket_paths h ps ?hb)))"
      by (rule Cons.IH [rotated -1, rotated -1])
    with Inr show ?thesis by simp
  qed
qed

lemma distinct_concat_filter:
  "distinct (concat xss) \<Longrightarrow> distinct (concat (filter P xss))"
  by (induction xss) auto

lemma keep_groups_filter:
  "keep_groups hb = filter (\<lambda>g. 1 < length g) (map snd hb)"
  by (induction hb) (auto simp: keep_groups_def)

lemma groups_of_distinct:
  assumes "distinct ps"
  shows "distinct (concat (groups_of h ps))"
proof -
  have "distinct (concat (map snd (bucket_paths h ps [])))"
    using assms by (intro bucket_paths_distinct) simp_all
  then show ?thesis
    unfolding groups_of_def keep_groups_filter by (rule distinct_concat_filter)
qed

lemma groups_of_concat_subset:
  "set (concat (groups_of h ps)) \<subseteq> set ps"
  using groups_of_subset [of _ h ps] by auto

lemma find_duplicate_candidates_subset:
  "set (concat (find_duplicate_candidates h si)) \<subseteq> set (concat (map snd si))"
proof
  fix x
  assume "x \<in> set (concat (find_duplicate_candidates h si))"
  then obtain g where g: "g \<in> set (find_duplicate_candidates h si)" and x: "x \<in> set g"
    by auto
  from g obtain sz ps where b: "(sz, ps) \<in> set si" and "g \<in> set (groups_of h ps)"
    by (auto simp: in_find_duplicate_candidates)
  with x groups_of_subset have "x \<in> set ps" by blast
  with b show "x \<in> set (concat (map snd si))" by force
qed

lemma find_duplicate_candidates_distinct:
  "distinct (concat (map snd si)) \<Longrightarrow> distinct (concat (find_duplicate_candidates h si))"
proof (induction si)
  case Nil
  then show ?case by (simp add: find_duplicate_candidates_all)
next
  case (Cons b si)
  obtain sz ps where b: "b = (sz, ps)" by (cases b)
  from Cons.prems have d: "distinct ps" "distinct (concat (map snd si))"
    and i: "set ps \<inter> set (concat (map snd si)) = {}"
    by (auto simp: b)
  have 1: "distinct (concat (groups_of h ps))" using d(1) by (rule groups_of_distinct)
  have 2: "distinct (concat (find_duplicate_candidates h si))" using d(2) by (rule Cons.IH)
  have 3: "set (concat (groups_of h ps)) \<inter> set (concat (find_duplicate_candidates h si)) = {}"
    using i groups_of_concat_subset [of h ps] find_duplicate_candidates_subset [of h si]
    by blast
  have "find_duplicate_candidates h (b # si) = groups_of h ps @ find_duplicate_candidates h si"
    by (simp add: find_duplicate_candidates_all b)
  with 1 2 3 show ?case by simp
qed

lemma distinct_concat_nth_disjoint:
  "distinct (concat xss) \<Longrightarrow> i < j \<Longrightarrow> j < length xss \<Longrightarrow> set (xss ! i) \<inter> set (xss ! j) = {}"
proof (induction xss arbitrary: i j)
  case Nil
  then show ?case by simp
next
  case (Cons xs xss)
  then obtain j' where j: "j = Suc j'" by (cases j) auto
  show ?case
  proof (cases i)
    case 0
    from Cons.prems j have "xss ! j' \<in> set xss" by simp
    with Cons.prems(1) 0 j show ?thesis by auto
  next
    case (Suc i')
    with Cons.prems j Cons.IH [of i' j'] show ?thesis by simp
  qed
qed

lemma distinct_concat_unique_index:
  assumes "distinct (concat xss)" "i < length xss" "j < length xss"
    "x \<in> set (xss ! i)" "x \<in> set (xss ! j)"
  shows "i = j"
proof (rule ccontr)
  assume "i \<noteq> j"
  then consider "i < j" | "j < i" by linarith
  then show False
  proof cases
    case 1
    from distinct_concat_nth_disjoint [OF assms(1) 1 assms(3)] assms(4,5) show False by blast
  next
    case 2
    from distinct_concat_nth_disjoint [OF assms(1) 2 assms(2)] assms(4,5) show False by blast
  qed
qed

lemma same_digest_grouped:
  assumes "(sz, ps) \<in> set si" "p \<in> set ps" "q \<in> set ps" "p \<noteq> q"
    "h p = Inr d" "h q = Inr d"
  shows "\<exists>g\<in>set (find_duplicate_candidates h si). p \<in> set g \<and> q \<in> set g"
proof -
  let ?g = "filter (\<lambda>x. h x = Inr d) ps"
  from assms have pq: "p \<in> set ?g" "q \<in> set ?g" by simp_all
  from pq assms(4) have "1 < length ?g" by (rule two_members_length)
  then have "?g \<in> set (groups_of h ps)" by (auto simp: groups_of_iff)
  with assms(1) have "?g \<in> set (find_duplicate_candidates h si)"
    by (auto simp: in_find_duplicate_candidates)
  with pq show ?thesis by blast
qed

lemma group_one_digest:
  assumes "g \<in> set (find_duplicate_candidates h si)" "p \<in> set g" "q \<in> set g"
  shows "h p = h q"
proof -
  from assms(1) obtain sz ps where "g \<in> set (groups_of h ps)"
    by (auto simp: in_find_duplicate_candidates)
  from groups_of_digest [OF this] assms(2,3) show ?thesis by auto
qed

lemma bucket_paths_cong:
  "(\<And>p. p \<in> set ps \<Longrightarrow> h1 p = h2 p) \<Longrightarrow> bucket_paths h1 ps hb = bucket_paths h2 ps hb"
  by (induction ps arbitrary: hb) (auto split: sum.splits)

lemma bucket_paths_failed:
  "h p = Inl e \<Longrightarrow> bucket_paths h (removeAll p ps) hb = bucket_paths h ps hb"
  by (induction ps arbitrary: hb) (auto split: sum.splits)


section \<open>Properties of the scan\<close>

lemma relative_to_Inr:
  "relative_to p other = Inr rel \<Longrightarrow> prefix other p \<and> rel = drop (length other) p"
  by (auto simp: relative_to_def split: if_splits)

lemma found_in_Nil: "found_in fs root dirpath [] = []"
  by (simp add: found_in_def)

lemma found_in_skip:
  "stat_size fs (dirpath @ [name]) = Inl e
     \<Longrightarrow> found_in fs root dirpath (name # names) = found_in fs root dirpath names"
  by (simp add: found_in_def)

lemma found_in_file:
  "stat_size fs (dirpath @ [name]) = Inr sz
     \<Longrightarrow> found_in fs root dirpath (name # names)
           = (drop (length root) dirpath, dirpath @ [name], sz) # found_in fs root dirpath names"
  by (simp add: found_in_def)

lemma record_found_apply:
  "record_found str_lower st (rel_dir, p, sz) = record_dirs str_lower rel_dir p sz (record_file str_lower p sz st)"
  by (simp add: record_found_def)

lemma foldl_record_found_step:
  "foldl (record_found str_lower) st (f # fl) = foldl (record_found str_lower) (record_found str_lower st f) fl"
  by simp

lemma scan_names_found:
  "scan_names str_lower fs root dirpath names st = Inr st'
     \<Longrightarrow> st' = foldl (record_found str_lower) st (found_in fs root dirpath names)"
proof (induction names arbitrary: st)
  case Nil
  then show ?case by (simp add: found_in_Nil)
next
  case (Cons name names)
  show ?case
  proof (cases "stat_size fs (dirpath @ [name])")
    case (Inl e)
    with Cons.prems have "scan_names str_lower fs root dirpath names st = Inr st'"
      by (cases e) (simp_all add: Let_def)
    from Cons.IH [OF this] show ?thesis by (simp add: found_in_skip [OF Inl])
  next
    case (Inr sz)
    with Cons.prems obtain rel where rel: "relative_to dirpath root = Inr rel"
      and rest: "scan_names str_lower fs root dirpath names
                   (record_dirs str_lower rel (dirpath @ [name]) sz (record_file str_lower (dirpath @ [name]) sz st))
                 = Inr st'"
      by (auto simp: Let_def split: sum.splits)
    from relative_to_Inr [OF rel] have r: "rel = drop (length root) dirpath" by simp
    from Cons.IH [OF rest] r show ?thesis
      by (simp add: found_in_file [OF Inr] record_found_apply)
  qed
qed

lemma found_Cons:
  "found fs root ((dirpath, dirnames, filenames) # w)
     = found_in fs root dirpath filenames @ found fs root w"
  by (simp add: found_def)

lemma scan_walk_found:
  "scan_walk str_lower fs root w st = Inr st' \<Longrightarrow> st' = foldl (record_found str_lower) st (found fs root w)"
proof (induction w arbitrary: st)
  case Nil
  then show ?case by (simp add: found_def)
next
  case (Cons t w)
  obtain dirpath dirnames filenames where t: "t = (dirpath, dirnames, filenames)"
    by (cases t)
  from Cons.prems obtain st1 where 1: "scan_names str_lower fs root dirpath filenames st = Inr st1"
    and 2: "scan_walk str_lower fs root w st1 = Inr st'"
    by (auto simp: t split: sum.splits)
  from scan_names_found [OF 1] Cons.IH [OF 2] show ?case
    by (simp add: t found_Cons)
qed

lemma scan_names_total:
  assumes "prefix root dirpath"
    and "\<forall>name\<in>set names. stat_size fs (dirpath @ [name]) \<noteq> Inl OtherOSError"
  shows "scan_names str_lower fs root dirpath names st
           = Inr (foldl (record_found str_lower) st (found_in fs root dirpath names))"
  using assms(2)
proof (induction names arbitrary: st)
  case Nil
  then show ?case by (simp add: found_in_Nil)
next
  case (Cons name names)
  then have ih: "\<And>st. scan_names str_lower fs root dirpath names st
                   = Inr (foldl (record_found str_lower) st (found_in fs root dirpath names))"
    by simp
  show ?case
  proof (cases "stat_size fs (dirpath @ [name])")
    case (Inl e)
    with Cons.prems have "e \<noteq> OtherOSError" by auto
    with Inl show ?thesis by (cases e) (simp_all add: ih found_in_skip [OF Inl])
  next
    case (Inr sz)
    with assms(1) show ?thesis
      by (simp add: ih found_in_file [OF Inr] record_found_apply relative_to_def Let_def)
  qed
qed

lemma scan_walk_total:
  assumes "\<forall>(dirpath, dirnames, filenames)\<in>set w.
             prefix root dirpath
           \<and> (\<forall>name\<in>set filenames. stat_size fs (dirpath @ [name]) \<noteq> Inl OtherOSError)"
  shows "scan_walk str_lower fs root w st = Inr (foldl (record_found str_lower) st (found fs root w))"
  using assms
proof (induction w arbitrary: st)
  case Nil
  then show ?case by (simp add: found_def)
next
  case (Cons t w)
  obtain dirpath dirnames filenames where t: "t = (dirpath, dirnames, filenames)"
    by (cases t)
  from Cons.prems have p: "prefix root dirpath"
    and s: "\<forall>name\<in>set filenames. stat_size fs (dirpath @ [name]) \<noteq> Inl OtherOSError"
    by (auto simp: t)
  from Cons.prems have "\<And>st. scan_walk str_lower fs root w st = Inr (foldl (record_found str_lower) st (found fs root w))"
    by (intro Cons.IH) simp
  with scan_names_total [OF p s] show ?case
    by (simp add: t found_Cons)
qed






lemma scan_walk_no_files:
  "\<forall>(dirpath, dirnames, filenames)\<in>set w. filenames = [] \<Longrightarrow> scan_walk str_lower fs root w st = Inr st"
  by (induction w arbitrary: st) auto

lemma record_found_total_files:
  "total_files (record_found str_lower st (rel_dir, p, sz)) = total_files st + 1"
  by (simp add: record_found_apply record_dirs_def record_file_def Let_def)

lemma record_found_total_size:
  "total_size (record_found str_lower st (rel_dir, p, sz)) = total_size st + sz"
  by (simp add: record_found_apply record_dirs_def record_file_def Let_def)

lemma record_found_all_files:
  "all_files (record_found str_lower st (rel_dir, p, sz)) = all_files st @ [(p, sz)]"
  by (simp add: record_found_apply record_dirs_def record_file_def Let_def)

lemma record_found_ext_stats:
  "ext_stats (record_found str_lower st (rel_dir, p, sz))
     = dd_modify new_stats (ext_key str_lower p) (bump_stats sz) (ext_stats st)"
  by (simp add: record_found_apply record_dirs_def record_file_def Let_def dd_modify_twice
      bump_stats_def [abs_def])

lemma record_found_size_index:
  "size_index (record_found str_lower st (rel_dir, p, sz))
     = dd_modify [] sz (\<lambda>paths. paths @ [p]) (size_index st)"
  by (simp add: record_found_apply record_dirs_def record_file_def Let_def)

lemma record_found_dir_stats:
  "dir_stats (record_found str_lower st (rel_dir, p, sz))
     = rollup (ext_key str_lower p) sz (ancestors_of rel_dir) (dir_stats st)"
  by (simp add: record_found_apply record_dirs_def record_file_def Let_def)

lemma bump_dir_eq:
  "bump_dir e sz anc ds = dd_modify new_dir_entry anc (bump_entry e sz) ds"
proof -
  have "(\<lambda>x. (x\<lparr>count := count x + 1, size_b := size_b x + sz,
                 ext := dd_modify new_stats e (\<lambda>y. y\<lparr>count := count y + 1\<rparr>) (ext x)\<rparr>)
               \<lparr>ext := dd_modify new_stats e (\<lambda>y. y\<lparr>size_b := size_b y + sz\<rparr>)
                         (dd_modify new_stats e (\<lambda>y. y\<lparr>count := count y + 1\<rparr>) (ext x))\<rparr>)
          = bump_entry e sz"
    by (rule ext) (simp add: bump_entry_def dd_modify_twice bump_stats_def [abs_def])
  then show ?thesis
    by (simp add: bump_dir_def Let_def dd_modify_twice)
qed

lemma rollup_get:
  "distinct ancs \<Longrightarrow>
   dd_get new_dir_entry (rollup e sz ancs ds) d
     = (if d \<in> set ancs then bump_entry e sz (dd_get new_dir_entry ds d)
        else dd_get new_dir_entry ds d)"
  by (induction ancs arbitrary: ds) (auto simp: bump_dir_eq dd_get_modify)

lemma parents_set: "set (parents p) = {take n p |n. n < length p}"
proof
  show "set (parents p) \<subseteq> {take n p |n. n < length p}"
  proof
    fix d assume "d \<in> set (parents p)"
    then obtain idx where "idx < length p" "d = take (length p - idx - 1) p"
      by (auto simp: parents_def)
    moreover from this have "length p - idx - 1 < length p" by simp
    ultimately show "d \<in> {take n p |n. n < length p}" by blast
  qed
  show "{take n p |n. n < length p} \<subseteq> set (parents p)"
  proof
    fix d assume "d \<in> {take n p |n. n < length p}"
    then obtain n where n: "n < length p" "d = take n p" by blast
    then have "length p - n - 1 < length p" "length p - (length p - n - 1) - 1 = n" by simp_all
    with n(2) have "d \<in> (\<lambda>idx. take (length p - idx - 1) p) ` {0..<length p}"
      by (metis (mono_tags, lifting) atLeastLessThan_iff image_eqI zero_le)
    then show "d \<in> set (parents p)" by (simp add: parents_def)
  qed
qed

lemma parents_distinct: "distinct (parents p)"
proof -
  have "inj_on (\<lambda>idx. take (length p - idx - 1) p) (set [0..<length p])"
  proof (rule inj_onI)
    fix i j
    assume i: "i \<in> set [0..<length p]" and j: "j \<in> set [0..<length p]"
      and e: "take (length p - i - 1) p = take (length p - j - 1) p"
    from e have "length (take (length p - i - 1) p) = length (take (length p - j - 1) p)"
      by simp
    with i j show "i = j" by simp
  qed
  then show ?thesis by (simp add: parents_def distinct_map)
qed

lemma take_prefix_iff: "prefix d p \<longleftrightarrow> (\<exists>n\<le>length p. d = take n p)"
proof
  assume "prefix d p"
  then obtain zs where "p = d @ zs" by (auto simp: prefix_def)
  then have "length d \<le> length p" "d = take (length d) p" by simp_all
  then show "\<exists>n\<le>length p. d = take n p" by blast
next
  assume "\<exists>n\<le>length p. d = take n p"
  then show "prefix d p" by (auto simp: take_is_prefix)
qed

lemma ancestors_of_set: "set (ancestors_of rel_dir) = {d. prefix d rel_dir}"
proof (cases "rel_dir = []")
  case True
  then show ?thesis by (auto simp: ancestors_of_def)
next
  case False
  have "{d. prefix d rel_dir} = insert rel_dir {take n rel_dir |n. n < length rel_dir}"
  proof -
    have "(\<exists>n\<le>length rel_dir. d = take n rel_dir)
            \<longleftrightarrow> d = rel_dir \<or> (\<exists>n<length rel_dir. d = take n rel_dir)" for d
      by (metis le_neq_implies_less nat_less_le order_refl take_all)
    then show ?thesis by (auto simp: take_prefix_iff)
  qed
  with False show ?thesis by (simp add: ancestors_of_def parents_set)
qed

lemma ancestors_of_distinct: "distinct (ancestors_of rel_dir)"
proof (cases "rel_dir = []")
  case True
  then show ?thesis by (simp add: ancestors_of_def)
next
  case False
  have "rel_dir \<notin> set (parents rel_dir)"
  proof
    assume "rel_dir \<in> set (parents rel_dir)"
    then obtain n where "n < length rel_dir" "rel_dir = take n rel_dir"
      by (auto simp: parents_set)
    then have "length rel_dir = n" by (metis length_take min.absorb2 nat_less_le)
    with \<open>n < length rel_dir\<close> show False by simp
  qed
  with False show ?thesis by (simp add: ancestors_of_def parents_distinct)
qed

lemma record_found_dir_get:
  "dd_get new_dir_entry (dir_stats (record_found str_lower st (rel_dir, p, sz))) d
     = (if prefix d rel_dir then bump_entry (ext_key str_lower p) sz (dd_get new_dir_entry (dir_stats st) d)
        else dd_get new_dir_entry (dir_stats st) d)"
  by (simp add: record_found_dir_stats rollup_get ancestors_of_distinct ancestors_of_set)

lemma sizes_Nil: "sizes [] = 0"
  by (simp add: sizes_def)

lemma sizes_Cons: "sizes ((rel_dir, p, sz) # fl) = sz + sizes fl"
  by (simp add: sizes_def)

lemma under_Nil: "under d [] = []"
  by (simp add: under_def)

lemma under_Cons:
  "under d ((rel_dir, p, sz) # fl)
     = (if prefix d rel_dir then (rel_dir, p, sz) # under d fl else under d fl)"
  by (simp add: under_def)

lemma with_ext_Nil: "with_ext str_lower e [] = []"
  by (simp add: with_ext_def)

lemma with_ext_Cons:
  "with_ext str_lower e ((rel_dir, p, sz) # fl)
     = (if ext_key str_lower p = e then (rel_dir, p, sz) # with_ext str_lower e fl else with_ext str_lower e fl)"
  by (simp add: with_ext_def)

lemma under_root: "under [] fl = fl"
  by (induction fl) (auto simp: under_def)

lemma fold_total_files:
  "total_files (foldl (record_found str_lower) st fl) = total_files st + length fl"
proof (induction fl arbitrary: st)
  case Nil
  then show ?case by simp
next
  case (Cons f fl)
  obtain rel_dir p sz where f: "f = (rel_dir, p, sz)" by (cases f)
  show ?case by (simp add: f Cons.IH record_found_total_files)
qed

lemma fold_total_size:
  "total_size (foldl (record_found str_lower) st fl) = total_size st + sizes fl"
proof (induction fl arbitrary: st)
  case Nil
  then show ?case by (simp add: sizes_Nil)
next
  case (Cons f fl)
  obtain rel_dir p sz where f: "f = (rel_dir, p, sz)" by (cases f)
  show ?case by (simp add: f Cons.IH record_found_total_size sizes_Cons)
qed

lemma fold_all_files:
  "all_files (foldl (record_found str_lower) st fl)
     = all_files st @ map (\<lambda>(rel_dir, p, sz). (p, sz)) fl"
proof (induction fl arbitrary: st)
  case Nil
  then show ?case by simp
next
  case (Cons f fl)
  obtain rel_dir p sz where f: "f = (rel_dir, p, sz)" by (cases f)
  show ?case by (simp add: f Cons.IH record_found_all_files)
qed

lemma fold_ext_count:
  "count (dd_get new_stats (ext_stats (foldl (record_found str_lower) st fl)) e)
     = count (dd_get new_stats (ext_stats st) e) + length (with_ext str_lower e fl)"
proof (induction fl arbitrary: st)
  case Nil
  then show ?case by (simp add: with_ext_Nil)
next
  case (Cons f fl)
  obtain rel_dir p sz where f: "f = (rel_dir, p, sz)" by (cases f)
  show ?case
    by (simp add: f Cons.IH record_found_ext_stats dd_get_modify with_ext_Cons bump_stats_def)
qed

lemma fold_ext_size:
  "size_b (dd_get new_stats (ext_stats (foldl (record_found str_lower) st fl)) e)
     = size_b (dd_get new_stats (ext_stats st) e) + sizes (with_ext str_lower e fl)"
proof (induction fl arbitrary: st)
  case Nil
  then show ?case by (simp add: with_ext_Nil sizes_Nil)
next
  case (Cons f fl)
  obtain rel_dir p sz where f: "f = (rel_dir, p, sz)" by (cases f)
  show ?case
    by (simp add: f Cons.IH record_found_ext_stats dd_get_modify with_ext_Cons sizes_Cons
        bump_stats_def)
qed

lemma fold_dir_count:
  "count (dd_get new_dir_entry (dir_stats (foldl (record_found str_lower) st fl)) d)
     = count (dd_get new_dir_entry (dir_stats st) d) + length (under d fl)"
proof (induction fl arbitrary: st)
  case Nil
  then show ?case by (simp add: under_Nil)
next
  case (Cons f fl)
  obtain rel_dir p sz where f: "f = (rel_dir, p, sz)" by (cases f)
  show ?case
    by (simp add: f Cons.IH record_found_dir_get under_Cons bump_entry_def)
qed

lemma fold_dir_size:
  "size_b (dd_get new_dir_entry (dir_stats (foldl (record_found str_lower) st fl)) d)
     = size_b (dd_get new_dir_entry (dir_stats st) d) + sizes (under d fl)"
proof (induction fl arbitrary: st)
  case Nil
  then show ?case by (simp add: under_Nil sizes_Nil)
next
  case (Cons f fl)
  obtain rel_dir p sz where f: "f = (rel_dir, p, sz)" by (cases f)
  show ?case
    by (simp add: f Cons.IH record_found_dir_get under_Cons sizes_Cons bump_entry_def)
qed

lemma fold_dir_ext_count:
  "count (dd_get new_stats (ext (dd_get new_dir_entry (dir_stats (foldl (record_found str_lower) st fl)) d)) e)
     = count (dd_get new_stats (ext (dd_get new_dir_entry (dir_stats st) d)) e)
       + length (with_ext str_lower e (under d fl))"
proof (induction fl arbitrary: st)
  case Nil
  then show ?case by (simp add: under_Nil with_ext_Nil)
next
  case (Cons f fl)
  obtain rel_dir p sz where f: "f = (rel_dir, p, sz)" by (cases f)
  show ?case
    by (simp add: f Cons.IH record_found_dir_get under_Cons with_ext_Cons bump_entry_def
        dd_get_modify bump_stats_def)
qed

lemma fold_dir_ext_size:
  "size_b (dd_get new_stats (ext (dd_get new_dir_entry (dir_stats (foldl (record_found str_lower) st fl)) d)) e)
     = size_b (dd_get new_stats (ext (dd_get new_dir_entry (dir_stats st) d)) e)
       + sizes (with_ext str_lower e (under d fl))"
proof (induction fl arbitrary: st)
  case Nil
  then show ?case by (simp add: under_Nil with_ext_Nil sizes_Nil)
next
  case (Cons f fl)
  obtain rel_dir p sz where f: "f = (rel_dir, p, sz)" by (cases f)
  show ?case
    by (simp add: f Cons.IH record_found_dir_get under_Cons with_ext_Cons sizes_Cons
        bump_entry_def dd_get_modify bump_stats_def)
qed

lemma rollup_keys_distinct:
  "distinct (map fst ds) \<Longrightarrow> distinct (map fst (rollup e sz ancs ds))"
  by (induction ancs arbitrary: ds) (simp_all add: bump_dir_eq dd_modify_distinct)

lemma fold_dir_keys_distinct:
  "distinct (map fst (dir_stats st))
     \<Longrightarrow> distinct (map fst (dir_stats (foldl (record_found str_lower) st fl)))"
proof (induction fl arbitrary: st)
  case Nil
  then show ?case by simp
next
  case (Cons f fl)
  obtain rel_dir p sz where f: "f = (rel_dir, p, sz)" by (cases f)
  from Cons.prems show ?case
    by (simp add: f Cons.IH record_found_dir_stats rollup_keys_distinct)
qed

lemma fold_index_get:
  "dd_get [] (size_index (foldl (record_found str_lower) st fl)) s
     = dd_get [] (size_index st) s
       @ map (\<lambda>(rel_dir, p, sz). p) (filter (\<lambda>(rel_dir, p, sz). sz = s) fl)"
proof (induction fl arbitrary: st)
  case Nil
  then show ?case by simp
next
  case (Cons f fl)
  obtain rel_dir p sz where f: "f = (rel_dir, p, sz)" by (cases f)
  show ?case
    by (simp add: f Cons.IH record_found_size_index dd_get_modify)
qed


lemma fold_index_distinct:
  "distinct (concat (map snd (size_index st)) @ map (\<lambda>(rel_dir, p, sz). p) fl)
     \<Longrightarrow> distinct (concat (map snd (size_index (foldl (record_found str_lower) st fl))))"
proof (induction fl arbitrary: st)
  case Nil
  then show ?case by simp
next
  case (Cons f fl)
  obtain rel_dir p sz where f: "f = (rel_dir, p, sz)" by (cases f)
  let ?st = "record_found str_lower st f"
  have s: "set (concat (map snd (size_index ?st))) = insert p (set (concat (map snd (size_index st))))"
    by (simp only: f record_found_size_index dd_append_set)
  have d: "distinct (concat (map snd (size_index ?st)))
             \<longleftrightarrow> distinct (concat (map snd (size_index st)))
                 \<and> p \<notin> set (concat (map snd (size_index st)))"
    by (simp only: f record_found_size_index dd_append_distinct)
  from Cons.prems have "distinct (concat (map snd (size_index ?st)) @ map (\<lambda>(rel_dir, p, sz). p) fl)"
    unfolding distinct_append d s by (auto simp: f)
  then have "distinct (concat (map snd (size_index (foldl (record_found str_lower) ?st fl))))"
    by (rule Cons.IH)
  then show ?case by simp
qed

lemma dd_get_in: "dd_get d m k \<noteq> d \<Longrightarrow> (k, dd_get d m k) \<in> set m"
  by (auto simp: dd_get_def split: option.splits dest: map_of_SomeD)

lemma dd_modify_sum:
  assumes "g d = (0::nat)" and "\<And>v. g (f v) = g v + c"
  shows "sum_list (map (\<lambda>(k, v). g v) (dd_modify d k f m))
           = sum_list (map (\<lambda>(k, v). g v) m) + c"
proof (induction m)
  case Nil
  then show ?case by (simp add: assms)
next
  case (Cons a m)
  obtain k' v where a: "a = (k', v)" by (cases a)
  show ?case by (simp add: a Cons.IH assms)
qed

lemma dd_modify_all:
  assumes "\<forall>(k', v)\<in>set m. P v" and "P (f d)" and "\<And>v. P v \<Longrightarrow> P (f v)"
  shows "\<forall>(k', v)\<in>set (dd_modify d k f m). P v"
  using assms(1)
proof (induction m)
  case Nil
  then show ?case by (simp add: assms(2))
next
  case (Cons a m)
  obtain k' v where a: "a = (k', v)" by (cases a)
  from Cons.prems have "P v" and "\<forall>(k', v)\<in>set m. P v" by (auto simp: a)
  with Cons.IH assms(3) show ?case by (auto simp: a)
qed

lemma fold_ext_sum_count:
  "sum_list (map (\<lambda>(e, y). count y) (ext_stats (foldl (record_found str_lower) st fl)))
     = sum_list (map (\<lambda>(e, y). count y) (ext_stats st)) + length fl"
proof (induction fl arbitrary: st)
  case Nil
  then show ?case by simp
next
  case (Cons f fl)
  obtain rel_dir p sz where f: "f = (rel_dir, p, sz)" by (cases f)
  have "sum_list (map (\<lambda>(e, y). count y) (ext_stats (record_found str_lower st f)))
          = sum_list (map (\<lambda>(e, y). count y) (ext_stats st)) + 1"
    unfolding f record_found_ext_stats
    by (rule dd_modify_sum) (simp_all add: new_stats_def bump_stats_def)
  then show ?case by (simp add: Cons.IH)
qed

lemma fold_ext_sum_size:
  "sum_list (map (\<lambda>(e, y). size_b y) (ext_stats (foldl (record_found str_lower) st fl)))
     = sum_list (map (\<lambda>(e, y). size_b y) (ext_stats st)) + sizes fl"
proof (induction fl arbitrary: st)
  case Nil
  then show ?case by (simp add: sizes_Nil)
next
  case (Cons f fl)
  obtain rel_dir p sz where f: "f = (rel_dir, p, sz)" by (cases f)
  have "sum_list (map (\<lambda>(e, y). size_b y) (ext_stats (record_found str_lower st f)))
          = sum_list (map (\<lambda>(e, y). size_b y) (ext_stats st)) + sz"
    unfolding f record_found_ext_stats
    by (rule dd_modify_sum) (simp_all add: new_stats_def bump_stats_def)
  then show ?case by (simp add: Cons.IH f sizes_Cons)
qed

lemma fold_ext_keys_distinct:
  "distinct (map fst (ext_stats st))
     \<Longrightarrow> distinct (map fst (ext_stats (foldl (record_found str_lower) st fl)))"
proof (induction fl arbitrary: st)
  case Nil
  then show ?case by simp
next
  case (Cons f fl)
  obtain rel_dir p sz where f: "f = (rel_dir, p, sz)" by (cases f)
  from Cons.prems show ?case
    by (simp add: f Cons.IH record_found_ext_stats dd_modify_distinct)
qed

lemma balanced_new: "balanced new_dir_entry"
  by (simp add: balanced_def new_dir_entry_def)

lemma balanced_bump:
  assumes "balanced x"
  shows "balanced (bump_entry e sz x)"
proof -
  have c: "sum_list (map (\<lambda>(e, y). count y) (dd_modify new_stats e (bump_stats sz) (ext x)))
             = sum_list (map (\<lambda>(e, y). count y) (ext x)) + 1"
    by (rule dd_modify_sum) (simp_all add: new_stats_def bump_stats_def)
  have s: "sum_list (map (\<lambda>(e, y). size_b y) (dd_modify new_stats e (bump_stats sz) (ext x)))
             = sum_list (map (\<lambda>(e, y). size_b y) (ext x)) + sz"
    by (rule dd_modify_sum) (simp_all add: new_stats_def bump_stats_def)
  from assms show ?thesis
    by (simp add: balanced_def bump_entry_def c s dd_modify_distinct)
qed

lemma rollup_balanced:
  "\<forall>(d, x)\<in>set ds. balanced x \<Longrightarrow> \<forall>(d, x)\<in>set (rollup e sz ancs ds). balanced x"
proof (induction ancs arbitrary: ds)
  case Nil
  then show ?case by simp
next
  case (Cons anc ancs)
  from Cons.prems have "\<forall>(d, x)\<in>set (dd_modify new_dir_entry anc (bump_entry e sz) ds). balanced x"
    by (rule dd_modify_all) (simp_all add: balanced_bump balanced_new)
  then show ?case by (simp add: bump_dir_eq Cons.IH)
qed

lemma fold_balanced:
  "\<forall>(d, x)\<in>set (dir_stats st). balanced x
     \<Longrightarrow> \<forall>(d, x)\<in>set (dir_stats (foldl (record_found str_lower) st fl)). balanced x"
proof (induction fl arbitrary: st)
  case Nil
  then show ?case by simp
next
  case (Cons f fl)
  obtain rel_dir p sz where f: "f = (rel_dir, p, sz)" by (cases f)
  from Cons.prems have "\<forall>(d, x)\<in>set (dir_stats (record_found str_lower st f)). balanced x"
    unfolding f record_found_dir_stats by (rule rollup_balanced)
  then show ?case by (simp add: Cons.IH)
qed

lemma scan_directory_found:
  "scan_directory str_lower fs root = Inr r
     \<Longrightarrow> r = foldl (record_found str_lower) empty_scan (found fs root (os_walk fs root))"
  unfolding scan_directory_def by (rule scan_walk_found)

lemma empty_scan_simps:
  "all_files empty_scan = []" "ext_stats empty_scan = []" "size_index empty_scan = []"
  "dir_stats empty_scan = []" "total_files empty_scan = 0" "total_size empty_scan = 0"
  by (simp_all add: empty_scan_def)

lemma dd_get_Nil: "dd_get d [] k = d"
  by (simp add: dd_get_def)

lemma new_simps:
  "count new_stats = 0" "size_b new_stats = 0"
  "count new_dir_entry = 0" "size_b new_dir_entry = 0" "ext new_dir_entry = []"
  by (simp_all add: new_stats_def new_dir_entry_def)


section \<open>The example inputs evaluated\<close>

lemma ex_keys:
  "ext_key ascii_lower [''r'', ''a.txt''] = ''.txt''" "ext_key ascii_lower [''r'', ''README''] = ''<no_ext>''"
  "ext_key ascii_lower [''r'', ''sub'', ''b.txt''] = ''.txt''" "ext_key ascii_lower [''r'', ''sub'', ''c.TXT''] = ''.txt''"
  by code_simp+

lemma ex_ancestors:
  "ancestors_of [] = [[]]" "ancestors_of [''sub''] = [[''sub''], []]"
  by (simp_all add: ancestors_of_def parents_def)

lemma ex_scan_eval: "scan_directory ascii_lower ex_fs [''r''] = Inr ex_scan"
  by (simp add: scan_directory_def ex_fs_def empty_scan_def ex_scan_def Let_def
      relative_to_def record_file_def record_dirs_def ex_keys ex_ancestors bump_dir_def
      new_stats_def new_dir_entry_def)

lemma ex_index_groups:
  "find_duplicate_candidates ex_hasher ex_index = [[[''r'', ''a''], [''r'', ''b'']]]"
  by (simp add: find_duplicate_candidates_def find_duplicate_candidates_logged_def
      candidates_def ex_index_def ex_hasher_def keep_groups_def)

lemma ex_index_hashed:
  "hashed_paths ex_hasher ex_index
     = [[''r'', ''a''], [''r'', ''b''], [''r'', ''c''], [''r'', ''gone'']]"
  by (simp add: hashed_paths_def find_duplicate_candidates_logged_def
      candidates_def ex_index_def ex_hasher_def keep_groups_def)

lemma ex_index_distinct: "distinct (concat (map snd ex_index))"
  by (simp add: ex_index_def)


section \<open>The claims about duplicate detection\<close>

text \<open>
  C10. For every size index whose buckets contain distinct paths, the groups that
  \<open>find_duplicate_candidates\<close> emits are pairwise disjoint: no path appears in more than
  one group (nor twice in one), and within each group all members come from one bucket of
  the index, so share one size, and have one digest.
\<close>

theorem C10_groups_disjoint:
  assumes "distinct (concat (map snd si))"
  shows "distinct (concat (find_duplicate_candidates hasher si))
       \<and> (\<forall>i j. i < j \<and> j < length (find_duplicate_candidates hasher si) \<longrightarrow>
             set (find_duplicate_candidates hasher si ! i)
               \<inter> set (find_duplicate_candidates hasher si ! j) = {})
       \<and> (\<forall>g\<in>set (find_duplicate_candidates hasher si).
             (\<exists>(sz, paths)\<in>set si. set g \<subseteq> set paths)
           \<and> (\<exists>d. \<forall>p\<in>set g. hasher p = Inr d))"
proof (intro conjI allI impI ballI)
  show d: "distinct (concat (find_duplicate_candidates hasher si))"
    using assms by (rule find_duplicate_candidates_distinct)
  fix i j
  assume "i < j \<and> j < length (find_duplicate_candidates hasher si)"
  with d show "set (find_duplicate_candidates hasher si ! i)
               \<inter> set (find_duplicate_candidates hasher si ! j) = {}"
    by (simp add: distinct_concat_nth_disjoint)
next
  fix g
  assume "g \<in> set (find_duplicate_candidates hasher si)"
  then obtain sz ps where b: "(sz, ps) \<in> set si" and g: "g \<in> set (groups_of hasher ps)"
    by (auto simp: in_find_duplicate_candidates)
  from g have "set g \<subseteq> set ps" by (rule groups_of_subset)
  with b show "\<exists>(sz, paths)\<in>set si. set g \<subseteq> set paths" by blast
  from g show "\<exists>d. \<forall>p\<in>set g. hasher p = Inr d" by (rule groups_of_digest)
qed

theorem C10_groups_disjoint_witness:
  "distinct (concat (map snd ex_index))
   \<and> find_duplicate_candidates ex_hasher ex_index = [[[''r'', ''a''], [''r'', ''b'']]]
   \<and> distinct (concat (find_duplicate_candidates ex_hasher ex_index))
   \<and> (\<exists>d. ex_hasher [''r'', ''a''] = Inr d \<and> ex_hasher [''r'', ''b''] = Inr d)"
proof -
  from C10_groups_disjoint [OF ex_index_distinct, of ex_hasher]
  have d: "distinct (concat (find_duplicate_candidates ex_hasher ex_index))"
    and g: "\<forall>g\<in>set (find_duplicate_candidates ex_hasher ex_index).
              \<exists>d. \<forall>p\<in>set g. ex_hasher p = Inr d"
    by blast+
  from g have "\<exists>d. \<forall>p\<in>set [[''r'', ''a''], [''r'', ''b'']]. ex_hasher p = Inr d"
    by (simp only: ex_index_groups list.set ball_simps)
  then have "\<exists>d. ex_hasher [''r'', ''a''] = Inr d \<and> ex_hasher [''r'', ''b''] = Inr d"
    by simp
  with d ex_index_distinct ex_index_groups show ?thesis by blast
qed

text \<open>
  C6. A file that is the sole occupant of its size bucket (the index being a dictionary
  that files each path under its size only) is never handed to the hasher by
  \<open>find_duplicate_candidates\<close> and appears in no emitted group.
\<close>

theorem C6_sole_occupant:
  assumes "distinct (map fst si)"
    and "(sz, [p]) \<in> set si"
    and "\<forall>(sz', paths)\<in>set si. p \<in> set paths \<longrightarrow> sz' = sz"
  shows "p \<notin> set (hashed_paths hasher si)
       \<and> (\<forall>g\<in>set (find_duplicate_candidates hasher si). p \<notin> set g)"
proof -
  have none: "p \<notin> set paths" if b: "(sz', paths) \<in> set (candidates si)" for sz' paths
  proof
    assume p: "p \<in> set paths"
    from b have m: "(sz', paths) \<in> set si" and l: "1 < length paths"
      by (auto simp: candidates_def)
    from assms(3) m p have "sz' = sz" by blast
    with assms(1,2) m have "paths = [p]" by (metis eq_key_imp_eq_value)
    with l show False by simp
  qed
  then have 1: "p \<notin> set (hashed_paths hasher si)"
    by (auto simp: hashed_paths_eq)
  have 2: "p \<notin> set g" if "g \<in> set (find_duplicate_candidates hasher si)" for g
  proof -
    from that obtain sz' paths where b: "(sz', paths) \<in> set (candidates si)"
      and "g \<in> set (groups_of hasher paths)"
      by (auto simp: find_duplicate_candidates_eq)
    then have "set g \<subseteq> set paths" by (simp add: groups_of_subset)
    with none [OF b] show ?thesis by blast
  qed
  from 1 2 show ?thesis by blast
qed

lemma ex_index_keys: "distinct (map fst ex_index)"
  by (simp add: ex_index_def)

theorem C6_sole_occupant_witness:
  "distinct (map fst ex_index) \<and> (7, [[''r'', ''solo'']]) \<in> set ex_index
   \<and> [''r'', ''solo''] \<notin> set (hashed_paths ex_hasher ex_index)
   \<and> [''r'', ''solo''] \<notin> set (concat (find_duplicate_candidates ex_hasher ex_index))"
proof -
  have m: "(7, [[''r'', ''solo'']]) \<in> set ex_index" by (simp add: ex_index_def)
  have o: "\<forall>(sz', paths)\<in>set ex_index. [''r'', ''solo''] \<in> set paths \<longrightarrow> sz' = 7"
    by (simp add: ex_index_def)
  from C6_sole_occupant [OF ex_index_keys m o, of ex_hasher] ex_index_keys m
  show ?thesis by auto
qed

text \<open>
  C7. If hashing a path fails with an I/O error, \<open>find_duplicate_candidates\<close> still
  returns its list of groups, and the list is the one it returns for the index without
  that path; the failed path is in no group, and every path of a bucket with more than
  one path is handed to the hasher all the same.
\<close>

theorem C7_failed_hash_dropped:
  assumes "hasher p = Inl err"
  shows "find_duplicate_candidates hasher si = find_duplicate_candidates hasher (without p si)
       \<and> (\<forall>g\<in>set (find_duplicate_candidates hasher si). p \<notin> set g)
       \<and> (\<forall>(sz, paths)\<in>set si. 1 < length paths \<longrightarrow>
             set paths \<subseteq> set (hashed_paths hasher si))"
proof (intro conjI ballI)
  have "groups_of hasher (removeAll p paths) = groups_of hasher paths" for paths
    using assms by (simp add: groups_of_def bucket_paths_failed)
  then show "find_duplicate_candidates hasher si
               = find_duplicate_candidates hasher (without p si)"
    by (simp add: find_duplicate_candidates_all without_def comp_def split_def)
next
  fix g
  assume "g \<in> set (find_duplicate_candidates hasher si)"
  then obtain sz ps where "g \<in> set (groups_of hasher ps)"
    by (auto simp: in_find_duplicate_candidates)
  from groups_of_digest [OF this] assms show "p \<notin> set g" by auto
next
  fix b
  assume "b \<in> set si"
  then show "case b of (sz, paths) \<Rightarrow> 1 < length paths \<longrightarrow>
               set paths \<subseteq> set (hashed_paths hasher si)"
    by (auto simp: hashed_paths_eq candidates_def)
qed

theorem C7_failed_hash_dropped_witness:
  "ex_hasher [''r'', ''gone''] = Inl FileNotFoundError
   \<and> find_duplicate_candidates ex_hasher (without [''r'', ''gone''] ex_index)
       = [[[''r'', ''a''], [''r'', ''b'']]]
   \<and> [''r'', ''c''] \<in> set (hashed_paths ex_hasher ex_index)"
proof -
  have f: "ex_hasher [''r'', ''gone''] = Inl FileNotFoundError" by (simp add: ex_hasher_def)
  from C7_failed_hash_dropped [of ex_hasher "[''r'', ''gone'']" FileNotFoundError ex_index, OF f]
  have "find_duplicate_candidates ex_hasher (without [''r'', ''gone''] ex_index)
          = find_duplicate_candidates ex_hasher ex_index"
    by simp
  with f show ?thesis by (simp add: ex_index_groups ex_index_hashed)
qed

lemma hash_file_cong:
  "read_bytes fs1 p = read_bytes fs2 p \<Longrightarrow> hash_file alg fs1 p = hash_file alg fs2 p"
  by (simp add: hash_file_def hash_file_chunked_def)

text \<open>
  C9. The groups are determined by the size index and by what reading the indexed files
  returns: two file systems that agree on the content (or the read failure) of every
  indexed path give the same sequence of groups for the same index.
\<close>

theorem C9_deterministic:
  assumes "\<forall>p\<in>set (concat (map snd si)). read_bytes fs1 p = read_bytes fs2 p"
  shows "find_duplicate_candidates (hash_file alg fs1) si
           = find_duplicate_candidates (hash_file alg fs2) si"
proof -
  have "groups_of (hash_file alg fs1) paths = groups_of (hash_file alg fs2) paths"
    if "(sz, paths) \<in> set si" for sz paths
  proof -
    from that assms have "\<And>p. p \<in> set paths \<Longrightarrow> read_bytes fs1 p = read_bytes fs2 p"
      by force
    then have "bucket_paths (hash_file alg fs1) paths [] = bucket_paths (hash_file alg fs2) paths []"
      by (intro bucket_paths_cong hash_file_cong)
    then show ?thesis by (simp add: groups_of_def)
  qed
  then have "map (\<lambda>(sz, paths). groups_of (hash_file alg fs1) paths) si
               = map (\<lambda>(sz, paths). groups_of (hash_file alg fs2) paths) si"
    by (intro map_cong) auto
  then show ?thesis by (simp only: find_duplicate_candidates_all)
qed

lemma ex_read_loop:
  "read_loop ex_alg n content h = (if n = 0 then h else h @ content)"
proof (induction ex_alg n content h rule: read_loop.induct)
  case (1 n content h)
  show ?case
  proof (cases "take n content = []")
    case True
    then show ?thesis by (subst read_loop.simps) auto
  next
    case False
    then have "n \<noteq> 0" by auto
    with 1 [OF False] False show ?thesis
      by (subst read_loop.simps) (simp add: ex_alg_def)
  qed
qed

lemma ex_hash_file: "hash_file ex_alg fs p = read_bytes fs p"
proof (cases "read_bytes fs p")
  case (Inl e)
  then show ?thesis by (simp add: hash_file_def hash_file_chunked_def)
next
  case (Inr content)
  have "md5_new ex_alg = []" "md5_hexdigest ex_alg = (\<lambda>h. h)" by (simp_all add: ex_alg_def)
  with Inr show ?thesis by (simp add: hash_file_def hash_file_chunked_def ex_read_loop)
qed

lemma ex_scan_groups:
  "find_duplicate_candidates (hash_file ex_alg ex_fs) ex_scan_index
     = [[[''r'', ''a.txt''], [''r'', ''sub'', ''b.txt'']]]"
  unfolding ex_hash_file [abs_def]
  by (simp add: find_duplicate_candidates_def find_duplicate_candidates_logged_def
      candidates_def ex_scan_index_def ex_fs_def keep_groups_def)

theorem C9_deterministic_witness:
  "read_bytes ex_fs [''r'', ''other''] \<noteq> read_bytes ex_fs2 [''r'', ''other'']
   \<and> find_duplicate_candidates (hash_file ex_alg ex_fs2) ex_scan_index
       = [[[''r'', ''a.txt''], [''r'', ''sub'', ''b.txt'']]]"
proof -
  have a: "\<forall>p\<in>set (concat (map snd ex_scan_index)). read_bytes ex_fs p = read_bytes ex_fs2 p"
    by (simp add: ex_scan_index_def ex_fs2_def)
  have "read_bytes ex_fs [''r'', ''other''] \<noteq> read_bytes ex_fs2 [''r'', ''other'']"
    by (simp add: ex_fs2_def ex_fs_def)
  with C9_deterministic [OF a, of ex_alg] ex_scan_groups show ?thesis by simp
qed


section \<open>The claims about the scan\<close>

text \<open>
  C1. When \<open>scan_directory str_lower\<close> returns, the size recorded for the root is the sum of the
  sizes of all files of the walk whose size \<open>stat\<close> returned, and for every directory
  the count, the size and the per-extension count and size are those of exactly the files
  found in it or below it: each file is counted once in its own directory and once in each
  ancestor up to the root, and nowhere else. An absent entry reads as the default, zero.
\<close>

theorem C1_rollup:
  assumes "scan_directory str_lower fs root = Inr r"
  shows "size_b (dd_get new_dir_entry (dir_stats r) [])
           = sizes (found fs root (os_walk fs root))
       \<and> distinct (map fst (dir_stats r))
       \<and> (\<forall>d. count (dd_get new_dir_entry (dir_stats r) d)
                  = length (under d (found fs root (os_walk fs root)))
              \<and> size_b (dd_get new_dir_entry (dir_stats r) d)
                  = sizes (under d (found fs root (os_walk fs root)))
              \<and> (\<forall>e. count (dd_get new_stats (ext (dd_get new_dir_entry (dir_stats r) d)) e)
                         = length (with_ext str_lower e (under d (found fs root (os_walk fs root))))
                     \<and> size_b (dd_get new_stats (ext (dd_get new_dir_entry (dir_stats r) d)) e)
                         = sizes (with_ext str_lower e (under d (found fs root (os_walk fs root))))))"
proof -
  let ?fl = "found fs root (os_walk fs root)"
  from scan_directory_found [OF assms] have r: "r = foldl (record_found str_lower) empty_scan ?fl" .
  have 1: "size_b (dd_get new_dir_entry (dir_stats r) d) = sizes (under d ?fl)" for d
    unfolding r by (simp add: fold_dir_size empty_scan_simps dd_get_Nil new_simps)
  have 2: "count (dd_get new_dir_entry (dir_stats r) d) = length (under d ?fl)" for d
    unfolding r by (simp add: fold_dir_count empty_scan_simps dd_get_Nil new_simps)
  have 3: "count (dd_get new_stats (ext (dd_get new_dir_entry (dir_stats r) d)) e)
             = length (with_ext str_lower e (under d ?fl))" for d e
    unfolding r by (simp add: fold_dir_ext_count empty_scan_simps dd_get_Nil new_simps)
  have 4: "size_b (dd_get new_stats (ext (dd_get new_dir_entry (dir_stats r) d)) e)
             = sizes (with_ext str_lower e (under d ?fl))" for d e
    unfolding r by (simp add: fold_dir_ext_size empty_scan_simps dd_get_Nil new_simps)
  have 5: "distinct (map fst (dir_stats r))"
    unfolding r by (rule fold_dir_keys_distinct) (simp add: empty_scan_simps)
  from 1 [of "[]"] have 0: "size_b (dd_get new_dir_entry (dir_stats r) []) = sizes ?fl"
    by (simp add: under_root)
  from 0 1 2 3 4 5 show ?thesis by blast
qed

lemma ex_found:
  "found ex_fs [''r''] (os_walk ex_fs [''r''])
     = [([], [''r'', ''a.txt''], 3), ([], [''r'', ''README''], 5),
        ([''sub''], [''r'', ''sub'', ''b.txt''], 3), ([''sub''], [''r'', ''sub'', ''c.TXT''], 3)]"
  by (simp add: found_def found_in_def ex_fs_def)

theorem C1_rollup_witness:
  "scan_directory ascii_lower ex_fs [''r''] = Inr ex_scan
   \<and> size_b (dd_get new_dir_entry (dir_stats ex_scan) []) = 14
   \<and> count (dd_get new_dir_entry (dir_stats ex_scan) [''sub'']) = 2
   \<and> size_b (dd_get new_dir_entry (dir_stats ex_scan) [''sub'']) = 6"
proof -
  from C1_rollup [OF ex_scan_eval]
  have "size_b (dd_get new_dir_entry (dir_stats ex_scan) [])
          = sizes (found ex_fs [''r''] (os_walk ex_fs [''r'']))"
    and "count (dd_get new_dir_entry (dir_stats ex_scan) [''sub''])
          = length (under [''sub''] (found ex_fs [''r''] (os_walk ex_fs [''r''])))"
    and "size_b (dd_get new_dir_entry (dir_stats ex_scan) [''sub''])
          = sizes (under [''sub''] (found ex_fs [''r''] (os_walk ex_fs [''r''])))"
    by blast+
  with ex_scan_eval show ?thesis
    by (simp add: ex_found sizes_def under_def)
qed

text \<open>
  C3. When \<open>scan_directory str_lower\<close> returns, the per-extension counts of the global extension
  stats add up to the total file count and the per-extension sizes to the total size, and
  in every entry of the directory stats the per-extension counts and sizes add up to the
  count and the size of that directory; every extension key occurs once in its dictionary.
\<close>

theorem C3_extension_sums:
  assumes "scan_directory str_lower fs root = Inr r"
  shows "sum_list (map (\<lambda>(e, y). count y) (ext_stats r)) = total_files r
       \<and> sum_list (map (\<lambda>(e, y). size_b y) (ext_stats r)) = total_size r
       \<and> distinct (map fst (ext_stats r))
       \<and> (\<forall>(d, x)\<in>set (dir_stats r).
             sum_list (map (\<lambda>(e, y). count y) (ext x)) = count x
           \<and> sum_list (map (\<lambda>(e, y). size_b y) (ext x)) = size_b x
           \<and> distinct (map fst (ext x)))"
proof -
  let ?fl = "found fs root (os_walk fs root)"
  from scan_directory_found [OF assms] have r: "r = foldl (record_found str_lower) empty_scan ?fl" .
  have 1: "sum_list (map (\<lambda>(e, y). count y) (ext_stats r)) = total_files r"
    unfolding r by (simp add: fold_ext_sum_count fold_total_files empty_scan_simps)
  have 2: "sum_list (map (\<lambda>(e, y). size_b y) (ext_stats r)) = total_size r"
    unfolding r by (simp add: fold_ext_sum_size fold_total_size empty_scan_simps)
  have 3: "distinct (map fst (ext_stats r))"
    unfolding r by (rule fold_ext_keys_distinct) (simp add: empty_scan_simps)
  have "\<forall>(d, x)\<in>set (dir_stats r). balanced x"
    unfolding r by (rule fold_balanced) (simp add: empty_scan_simps)
  then have 4: "\<forall>(d, x)\<in>set (dir_stats r).
             sum_list (map (\<lambda>(e, y). count y) (ext x)) = count x
           \<and> sum_list (map (\<lambda>(e, y). size_b y) (ext x)) = size_b x
           \<and> distinct (map fst (ext x))"
    by (simp add: balanced_def)
  from 1 2 3 4 show ?thesis by blast
qed

theorem C3_extension_sums_witness:
  "scan_directory ascii_lower ex_fs [''r''] = Inr ex_scan
   \<and> sum_list (map (\<lambda>(e, y). count y) (ext_stats ex_scan)) = 4
   \<and> sum_list (map (\<lambda>(e, y). size_b y) (ext_stats ex_scan)) = 14
   \<and> total_files ex_scan = 4 \<and> total_size ex_scan = 14"
proof -
  from C3_extension_sums [OF ex_scan_eval]
  have "sum_list (map (\<lambda>(e, y). count y) (ext_stats ex_scan)) = total_files ex_scan"
    and "sum_list (map (\<lambda>(e, y). size_b y) (ext_stats ex_scan)) = total_size ex_scan"
    by blast+
  moreover have "total_files ex_scan = 4" "total_size ex_scan = 14"
    by (simp_all add: ex_scan_def)
  ultimately show ?thesis using ex_scan_eval by simp
qed

lemma find_duplicate_candidates_Nil: "find_duplicate_candidates hasher [] = []"
  by (simp add: find_duplicate_candidates_all)

text \<open>
  C4, as the code has it. For a tree in which the walk lists no file, \<open>scan_directory str_lower\<close>
  returns a total file count of 0 and a total size of 0, \<open>find_duplicate_candidates\<close>
  returns the empty sequence, and the directory stats are empty: the root has no entry
  (entries are created when a file is counted), and reading the root through the
  defaulting dictionary gives the count 0.
\<close>

theorem C4_empty_tree:
  assumes "\<forall>(dirpath, dirnames, filenames)\<in>set (os_walk fs root). filenames = []"
  shows "scan_directory str_lower fs root = Inr empty_scan
       \<and> total_files empty_scan = 0 \<and> total_size empty_scan = 0
       \<and> find_duplicate_candidates hasher (size_index empty_scan) = []
       \<and> dir_stats empty_scan = []
       \<and> count (dd_get new_dir_entry (dir_stats empty_scan) []) = 0"
proof -
  from assms have "scan_directory str_lower fs root = Inr empty_scan"
    unfolding scan_directory_def by (rule scan_walk_no_files)
  then show ?thesis
    by (simp add: empty_scan_simps find_duplicate_candidates_Nil dd_get_Nil new_simps)
qed

lemma ex_empty_walk:
  "\<forall>(dirpath, dirnames, filenames)\<in>set (os_walk ex_empty_fs [''r'']). filenames = []"
  by (simp add: ex_empty_fs_def)

theorem C4_empty_tree_witness:
  "os_walk ex_empty_fs [''r''] = [([''r''], [], [])]
   \<and> scan_directory ascii_lower ex_empty_fs [''r''] = Inr empty_scan
   \<and> find_duplicate_candidates ex_hasher (size_index empty_scan) = []
   \<and> count (dd_get new_dir_entry (dir_stats empty_scan) []) = 0"
proof -
  have w: "os_walk ex_empty_fs [''r''] = [([''r''], [], [])]"
    by (simp add: ex_empty_fs_def)
  from C4_empty_tree [where str_lower = ascii_lower and hasher = ex_hasher, OF ex_empty_walk] w show ?thesis by blast
qed

text \<open>
  C4 as stated fails: after the scan of a root without files the directory stats hold no
  entry for the root.
\<close>

theorem C4_root_entry_counterexample:
  "scan_directory ascii_lower ex_empty_fs [''r''] = Inr empty_scan
   \<and> dir_stats empty_scan = [] \<and> map_of (dir_stats empty_scan) [] = None"
  by (simp add: scan_directory_def ex_empty_fs_def empty_scan_def)



lemma scan_all_files:
  assumes "scan_directory str_lower fs root = Inr r"
  shows "all_files r = map (\<lambda>(rel_dir, p, sz). (p, sz)) (found fs root (os_walk fs root))"
proof -
  from scan_directory_found [OF assms]
  have "all_files r = all_files empty_scan
          @ map (\<lambda>(rel_dir, p, sz). (p, sz)) (found fs root (os_walk fs root))"
    by (simp only: fold_all_files)
  then show ?thesis by (simp only: empty_scan_simps append_Nil)
qed








lemma scan_index_bucket:
  assumes "scan_directory str_lower fs root = Inr r" "(p, sz) \<in> set (all_files r)"
  shows "\<exists>paths. (sz, paths) \<in> set (size_index r) \<and> p \<in> set paths"
proof -
  let ?fl = "found fs root (os_walk fs root)"
  from scan_directory_found [OF assms(1)] have e: "r = foldl (record_found str_lower) empty_scan ?fl" .
  from assms obtain rel_dir where f: "(rel_dir, p, sz) \<in> set ?fl"
    by (auto simp: scan_all_files)
  have g: "dd_get [] (size_index r) sz
             = map (\<lambda>(rel_dir, p, sz). p) (filter (\<lambda>(rel_dir, p, sz'). sz' = sz) ?fl)"
    unfolding e by (simp add: fold_index_get empty_scan_simps dd_get_Nil)
  from f have "(rel_dir, p, sz) \<in> set (filter (\<lambda>(rel_dir, p, sz'). sz' = sz) ?fl)" by simp
  then have m: "p \<in> set (dd_get [] (size_index r) sz)"
    unfolding g by force
  then have "dd_get [] (size_index r) sz \<noteq> []" by auto
  then have "(sz, dd_get [] (size_index r) sz) \<in> set (size_index r)" by (rule dd_get_in)
  with m show ?thesis by blast
qed

lemma scan_index_keys_distinct:
  assumes "scan_directory str_lower fs root = Inr r"
  shows "distinct (map fst (size_index r))"
proof -
  have "distinct (map fst (size_index st))
          \<Longrightarrow> distinct (map fst (size_index (foldl (record_found str_lower) st fl)))" for st fl
  proof (induction fl arbitrary: st)
    case Nil
    then show ?case by simp
  next
    case (Cons f fl)
    obtain rel_dir p sz where f: "f = (rel_dir, p, sz)" by (cases f)
    from Cons.prems show ?case
      by (simp add: f Cons.IH record_found_size_index dd_modify_distinct)
  qed
  from this [of empty_scan] scan_directory_found [OF assms] show ?thesis
    by (simp add: empty_scan_simps)
qed

lemma scan_index_distinct:
  assumes "scan_directory str_lower fs root = Inr r" "distinct (map fst (all_files r))"
  shows "distinct (concat (map snd (size_index r)))"
proof -
  let ?fl = "found fs root (os_walk fs root)"
  from scan_directory_found [OF assms(1)] have e: "r = foldl (record_found str_lower) empty_scan ?fl" .
  have "map fst (map (\<lambda>(rel_dir, p, sz). (p, sz)) ?fl) = map (\<lambda>(rel_dir, p, sz). p) ?fl"
    by (induction ?fl) auto
  with assms have "distinct (map (\<lambda>(rel_dir, p, sz). p) ?fl)"
    by (simp only: scan_all_files [OF assms(1)])
  then have "distinct (concat (map snd (size_index empty_scan)) @ map (\<lambda>(rel_dir, p, sz). p) ?fl)"
    by (simp add: empty_scan_simps)
  then show ?thesis unfolding e by (rule fold_index_distinct)
qed

lemma hash_file_same_content:
  "read_bytes fs p = Inr c \<Longrightarrow> read_bytes fs q = Inr c
     \<Longrightarrow> \<exists>d. hash_file alg fs p = Inr d \<and> hash_file alg fs q = Inr d"
  by (simp add: hash_file_def hash_file_chunked_def)

text \<open>
  C2. Take two different files that a scan lists, each once, with the same size. If
  reading them returns the same bytes, \<open>find_duplicate_candidates\<close> on the scan's size
  index puts both into one group, and that group is the only one that holds either of
  them. If their hashes differ (different digests, or one of them unreadable), no group
  holds both. Every emitted group has at least two members.
\<close>

theorem C2_duplicate_grouping:
  assumes "scan_directory str_lower fs root = Inr r"
    and "distinct (map fst (all_files r))"
    and "(p, sz) \<in> set (all_files r)" and "(q, sz) \<in> set (all_files r)" and "p \<noteq> q"
  shows "(read_bytes fs p = Inr c \<and> read_bytes fs q = Inr c \<longrightarrow>
            (\<exists>i<length (find_duplicate_candidates (hash_file alg fs) (size_index r)).
                p \<in> set (find_duplicate_candidates (hash_file alg fs) (size_index r) ! i)
              \<and> q \<in> set (find_duplicate_candidates (hash_file alg fs) (size_index r) ! i)
              \<and> (\<forall>j<length (find_duplicate_candidates (hash_file alg fs) (size_index r)).
                    p \<in> set (find_duplicate_candidates (hash_file alg fs) (size_index r) ! j)
                  \<or> q \<in> set (find_duplicate_candidates (hash_file alg fs) (size_index r) ! j)
                  \<longrightarrow> j = i)))
       \<and> (hash_file alg fs p \<noteq> hash_file alg fs q \<longrightarrow>
            (\<forall>g\<in>set (find_duplicate_candidates (hash_file alg fs) (size_index r)).
                p \<notin> set g \<or> q \<notin> set g))
       \<and> (\<forall>g\<in>set (find_duplicate_candidates (hash_file alg fs) (size_index r)).
            2 \<le> length g)"
proof (intro conjI impI ballI)
  let ?G = "find_duplicate_candidates (hash_file alg fs) (size_index r)"
  assume "read_bytes fs p = Inr c \<and> read_bytes fs q = Inr c"
  then obtain d where d: "hash_file alg fs p = Inr d" "hash_file alg fs q = Inr d"
    using hash_file_same_content by blast
  from scan_index_bucket [OF assms(1,3)] obtain ps where
    ps: "(sz, ps) \<in> set (size_index r)" "p \<in> set ps" by blast
  from scan_index_bucket [OF assms(1,4)] obtain qs where
    qs: "(sz, qs) \<in> set (size_index r)" "q \<in> set qs" by blast
  from scan_index_keys_distinct [OF assms(1)] ps(1) qs(1) have "qs = ps"
    by (metis eq_key_imp_eq_value)
  with qs have q: "q \<in> set ps" by simp
  from same_digest_grouped [OF ps(1) ps(2) q assms(5) d]
  obtain g where g: "g \<in> set ?G" "p \<in> set g" "q \<in> set g" by blast
  then obtain i where i: "i < length ?G" "?G ! i = g" by (auto simp: in_set_conv_nth)
  have dist: "distinct (concat ?G)"
    using scan_index_distinct [OF assms(1,2)] by (rule find_duplicate_candidates_distinct)
  have "j = i" if j: "j < length ?G" and m: "p \<in> set (?G ! j) \<or> q \<in> set (?G ! j)" for j
  proof -
    from m show ?thesis
    proof
      assume "p \<in> set (?G ! j)"
      with dist j i g show ?thesis by (metis distinct_concat_unique_index)
    next
      assume "q \<in> set (?G ! j)"
      with dist j i g show ?thesis by (metis distinct_concat_unique_index)
    qed
  qed
  with i g show "\<exists>i<length ?G. p \<in> set (?G ! i) \<and> q \<in> set (?G ! i)
      \<and> (\<forall>j<length ?G. p \<in> set (?G ! j) \<or> q \<in> set (?G ! j) \<longrightarrow> j = i)"
    by blast
next
  fix g
  assume n: "hash_file alg fs p \<noteq> hash_file alg fs q"
    and g: "g \<in> set (find_duplicate_candidates (hash_file alg fs) (size_index r))"
  show "p \<notin> set g \<or> q \<notin> set g"
  proof (rule ccontr)
    assume "\<not> (p \<notin> set g \<or> q \<notin> set g)"
    then have "p \<in> set g" "q \<in> set g" by simp_all
    from group_one_digest [OF g this] n show False by simp
  qed
next
  fix g
  assume "g \<in> set (find_duplicate_candidates (hash_file alg fs) (size_index r))"
  then obtain sz' ps where "g \<in> set (groups_of (hash_file alg fs) ps)"
    by (auto simp: in_find_duplicate_candidates)
  then show "2 \<le> length g" by (rule groups_of_length)
qed

lemma ex_scan_index: "size_index ex_scan = ex_scan_index"
  by (simp add: ex_scan_def ex_scan_index_def)

theorem C2_duplicate_grouping_witness:
  "scan_directory ascii_lower ex_fs [''r''] = Inr ex_scan
   \<and> read_bytes ex_fs [''r'', ''a.txt''] = Inr ''abc''
   \<and> read_bytes ex_fs [''r'', ''sub'', ''b.txt''] = Inr ''abc''
   \<and> find_duplicate_candidates (hash_file ex_alg ex_fs) (size_index ex_scan)
       = [[[''r'', ''a.txt''], [''r'', ''sub'', ''b.txt'']]]
   \<and> (\<exists>i<length (find_duplicate_candidates (hash_file ex_alg ex_fs) (size_index ex_scan)).
          [''r'', ''a.txt'']
            \<in> set (find_duplicate_candidates (hash_file ex_alg ex_fs) (size_index ex_scan) ! i)
        \<and> [''r'', ''sub'', ''b.txt'']
            \<in> set (find_duplicate_candidates (hash_file ex_alg ex_fs) (size_index ex_scan) ! i))"
proof -
  have d: "distinct (map fst (all_files ex_scan))" by (simp add: ex_scan_def)
  have p: "([''r'', ''a.txt''], 3) \<in> set (all_files ex_scan)" by (simp add: ex_scan_def)
  have q: "([''r'', ''sub'', ''b.txt''], 3) \<in> set (all_files ex_scan)" by (simp add: ex_scan_def)
  have n: "[''r'', ''a.txt''] \<noteq> [''r'', ''sub'', ''b.txt'']" by simp
  have c: "read_bytes ex_fs [''r'', ''a.txt''] = Inr ''abc''"
    "read_bytes ex_fs [''r'', ''sub'', ''b.txt''] = Inr ''abc''"
    by (simp_all add: ex_fs_def)
  from C2_duplicate_grouping [OF ex_scan_eval d p q n, of "''abc''" ex_alg] c
  have "\<exists>i<length (find_duplicate_candidates (hash_file ex_alg ex_fs) (size_index ex_scan)).
          [''r'', ''a.txt'']
            \<in> set (find_duplicate_candidates (hash_file ex_alg ex_fs) (size_index ex_scan) ! i)
        \<and> [''r'', ''sub'', ''b.txt'']
            \<in> set (find_duplicate_candidates (hash_file ex_alg ex_fs) (size_index ex_scan) ! i)"
    by blast
  with ex_scan_eval c ex_scan_groups show ?thesis
    by (simp only: ex_scan_index simp_thms)
qed

section \<open>The claim about extension keys\<close>











end
